theory Spec2Isabelle
  imports Main "HOL-Library.AList"
begin

section \<open>Strings as the orchestrator uses them\<close>

text \<open>
  Strings are lists of 8-bit characters; account names, repository paths and the remote
  error texts matched by the code are ASCII. \<open>lower\<close> is Python's \<open>str.lower\<close> on
  ASCII letters, \<open>str_in\<close> is the substring test \<open>needle in hay\<close>, \<open>strip\<close> is
  \<open>str.strip()\<close> and \<open>strip_quotes\<close> is \<open>str.strip('"')\<close>.
\<close>

definition lower_char :: "char \<Rightarrow> char" where
  "lower_char c =
     (case map_of (zip ''ABCDEFGHIJKLMNOPQRSTUVWXYZ'' ''abcdefghijklmnopqrstuvwxyz'') c of
        Some d \<Rightarrow> d
      | None \<Rightarrow> c)"

definition lower :: "string \<Rightarrow> string" where
  "lower s = map lower_char s"

fun startswith :: "string \<Rightarrow> string \<Rightarrow> bool" where
  "startswith [] ys = True"
| "startswith (x # xs) [] = False"
| "startswith (x # xs) (y # ys) = (x = y \<and> startswith xs ys)"

fun str_in :: "string \<Rightarrow> string \<Rightarrow> bool" where
  "str_in xs [] = (xs = [])"
| "str_in xs (y # ys) = (startswith xs (y # ys) \<or> str_in xs ys)"

definition is_space :: "char \<Rightarrow> bool" where
  "is_space c = (c \<in> set [CHR '' '', CHR 0x09, CHR 0x0A, CHR 0x0B, CHR 0x0C, CHR 0x0D,
                            CHR 0x1C, CHR 0x1D, CHR 0x1E, CHR 0x1F])"

definition strip_chars :: "(char \<Rightarrow> bool) \<Rightarrow> string \<Rightarrow> string" where
  "strip_chars p s = rev (dropWhile p (rev (dropWhile p s)))"

definition strip :: "string \<Rightarrow> string" where
  "strip s = strip_chars is_space s"

definition strip_quotes :: "string \<Rightarrow> string" where
  "strip_quotes s = strip_chars (\<lambda>c. c = CHR 0x22) s"

text \<open>\<open>split_on c s\<close> is \<open>s.split(c)\<close> for a one-character separator.\<close>

fun split_on :: "char \<Rightarrow> string \<Rightarrow> string list" where
  "split_on c [] = [[]]"
| "split_on c (x # xs) =
     (if x = c then [] # split_on c xs
      else (case split_on c xs of
              [] \<Rightarrow> [[x]]
            | p # ps \<Rightarrow> (x # p) # ps))"

section \<open>Python values and exceptions\<close>

datatype py_error =
  KeyError | IndexError | AttributeError | TypeError | EOFError | JSONDecodeError

datatype 'a res = Ok 'a | Raise py_error

definition bind_res :: "'a res \<Rightarrow> ('a \<Rightarrow> 'b res) \<Rightarrow> 'b res" where
  "bind_res r f = (case r of Ok x \<Rightarrow> f x | Raise e \<Rightarrow> Raise e)"

text \<open>
  The value \<open>json.loads\<close> returns. \<open>json.loads\<close> itself is a library function and
  is a parameter of the accept flow: it maps the listing's text to a value, or to
  \<open>None\<close> where it raises \<open>JSONDecodeError\<close>. Numbers are the integer ones (an
  invitation id is an integer); an object is the association list of its keys.
\<close>

datatype json =
    JNull
  | JBool bool
  | JNum int
  | JStr string
  | JArr "json list"
  | JObj "(string \<times> json) list"

text \<open>Truth value of a Python object, as \<open>if inv_id:\<close> tests it.\<close>

fun truthy :: "json \<Rightarrow> bool" where
  "truthy JNull = False"
| "truthy (JBool b) = b"
| "truthy (JNum n) = (n \<noteq> 0)"
| "truthy (JStr s) = (s \<noteq> [])"
| "truthy (JArr xs) = (xs \<noteq> [])"
| "truthy (JObj kvs) = (kvs \<noteq> [])"

text \<open>Iterating a value in a generator expression: a list gives its elements, a dict its
  keys, a string its characters; anything else is not iterable.\<close>

fun py_iter :: "json \<Rightarrow> json list res" where
  "py_iter (JArr xs) = Ok xs"
| "py_iter (JObj kvs) = Ok (map (\<lambda>kv. JStr (fst kv)) kvs)"
| "py_iter (JStr s) = Ok (map (\<lambda>c. JStr [c]) s)"
| "py_iter _ = Raise TypeError"

text \<open>\<open>d.get(key, default)\<close>: only a dict has \<open>get\<close>.\<close>

fun py_get :: "json \<Rightarrow> string \<Rightarrow> json \<Rightarrow> json res" where
  "py_get (JObj kvs) k d = Ok (case map_of kvs k of Some v \<Rightarrow> v | None \<Rightarrow> d)"
| "py_get _ k d = Raise AttributeError"

text \<open>\<open>v.lower()\<close>: only a string has \<open>lower\<close>.\<close>

fun py_lower :: "json \<Rightarrow> string res" where
  "py_lower (JStr s) = Ok (lower s)"
| "py_lower _ = Raise AttributeError"

text \<open>\<open>inv['id']\<close> on a value that already answered \<open>get\<close>.\<close>

fun py_item :: "json \<Rightarrow> string \<Rightarrow> json res" where
  "py_item (JObj kvs) k = (case map_of kvs k of Some v \<Rightarrow> Ok v | None \<Rightarrow> Raise KeyError)"
| "py_item _ k = Raise TypeError"

section \<open>The world: remote gateway, clock, checklist files, trace of effects\<close>

text \<open>
  The uniform result of a gateway call. \<open>error\<close> is optional: the code reads it with
  \<open>result.get('error', '')\<close> as well as with \<open>result['error']\<close>. \<open>elapsed\<close> is the
  time the call took on the clock that \<open>time.time()\<close> reads (retries and the request
  timeout are fixed per kind of call in the source, and are inside the gateway).
\<close>

record response =
  success :: bool
  output_text :: string
  error :: "string option"
  elapsed :: nat

text \<open>The remote operations the module issues, one constructor per command line.\<close>

datatype api_call =
    Put_collaborator string string
      \<comment> \<open>\<open>api --silent -X PUT repos/{repo_path}/collaborators/{username} -f permission=push\<close>\<close>
  | List_invitations
      \<comment> \<open>\<open>api user/repository_invitations\<close>\<close>
  | Accept_invitation json
      \<comment> \<open>\<open>api --method PATCH /user/repository_invitations/{inv_id} --silent\<close>\<close>
  | Get_parent string
      \<comment> \<open>\<open>api repos/{repo_path} --jq .parent.full_name\<close>\<close>
  | Get_default_branch string
      \<comment> \<open>\<open>api repos/{repo_path} --jq .default_branch\<close>\<close>
  | Delete_repo string
      \<comment> \<open>\<open>api -X DELETE repos/{repo_path}\<close>\<close>
  | Merge_upstream string string
      \<comment> \<open>\<open>api -X POST repos/{fork_repo}/merge-upstream -f branch={default_branch}\<close>\<close>
  | Create_fork string
      \<comment> \<open>\<open>api -X POST repos/{source_repo}/forks\<close>\<close>
  | Get_repo string
      \<comment> \<open>\<open>api repos/{fork_repo_path}\<close>\<close>
  | Disable_workflow string string
      \<comment> \<open>\<open>disable_workflow(repo, token, "datagram-runner.yml")\<close>\<close>

datatype checklist = Invited | Accepted | Forked

text \<open>The lines \<open>print_error\<close> writes.\<close>

datatype err_line =
    Err_config_unset
  | Err_token_cache_empty
  | Err_config_or_cache_missing
  | Err_invite string
  | Err_fetch_invitations
  | Err_accept string
  | Err_parse_json
  | Err_delete string
  | Err_fork_creation "string option"
  | Err_timeout

text \<open>The lines \<open>write_log\<close> writes.\<close>

datatype log_line =
    Log_delete_failed string "string option"
  | Log_fork_failed string "string option"

text \<open>
  Every effect of a run, in the order the code performs it: a gateway call with the
  credential it used and the result it got, a \<open>time.sleep\<close>, a checklist append, the
  rewrite of a checklist file, a log line, an error line on the console. Informational
  console lines and banners are presentation and are not recorded.
\<close>

datatype event =
    Call api_call string response
  | Sleep nat
  | Append_line checklist string
  | Write_lines checklist "string list"
  | Log log_line
  | Print_error err_line

record world =
  now :: nat
  trace :: "event list"
  invited_users :: "string list"
  accepted_users :: "string list"
  forked_repos :: "string list"

text \<open>
  The gateway is the environment: what it answers may depend on everything that has
  happened so far, on the call and on the credential.
\<close>

type_synonym gateway = "world \<Rightarrow> api_call \<Rightarrow> string \<Rightarrow> response"

definition run_gh_api :: "gateway \<Rightarrow> api_call \<Rightarrow> string \<Rightarrow> world \<Rightarrow> response \<times> world" where
  "run_gh_api gw c token w =
     (let r = gw w c token
      in (r, w\<lparr>now := now w + elapsed r, trace := trace w @ [Call c token r]\<rparr>))"

definition sleep :: "nat \<Rightarrow> world \<Rightarrow> world" where
  "sleep n w = w\<lparr>now := now w + n, trace := trace w @ [Sleep n]\<rparr>"

definition print_error :: "err_line \<Rightarrow> world \<Rightarrow> world" where
  "print_error m w = w\<lparr>trace := trace w @ [Print_error m]\<rparr>"

definition write_log :: "log_line \<Rightarrow> world \<Rightarrow> world" where
  "write_log l w = w\<lparr>trace := trace w @ [Log l]\<rparr>"

definition read_file_lines :: "checklist \<Rightarrow> world \<Rightarrow> string list" where
  "read_file_lines f w =
     (case f of Invited \<Rightarrow> invited_users w
              | Accepted \<Rightarrow> accepted_users w
              | Forked \<Rightarrow> forked_repos w)"

definition set_file_lines :: "checklist \<Rightarrow> string list \<Rightarrow> world \<Rightarrow> world" where
  "set_file_lines f ls w =
     (case f of Invited \<Rightarrow> w\<lparr>invited_users := ls\<rparr>
              | Accepted \<Rightarrow> w\<lparr>accepted_users := ls\<rparr>
              | Forked \<Rightarrow> w\<lparr>forked_repos := ls\<rparr>)"

text \<open>
  Modelled from the spec: \<open>append_to_file\<close> is defined in \<open>helpers\<close>, which is not
  among the sources. The spec's checklist store has \<open>add(list, id)\<close>: an append that is
  idempotent, adding an existing id being a no-op.
\<close>

definition append_to_file :: "checklist \<Rightarrow> string \<Rightarrow> world \<Rightarrow> world" where
  "append_to_file f u w =
     (let ls = read_file_lines f w;
          w1 = w\<lparr>trace := trace w @ [Append_line f u]\<rparr>
      in if u \<in> set ls then w1 else set_file_lines f (ls @ [u]) w1)"

text \<open>\<open>FORKED_REPOS_FILE.write_text('\n'.join(new_lines) + '\n')\<close>.\<close>

definition write_text :: "checklist \<Rightarrow> string list \<Rightarrow> world \<Rightarrow> world" where
  "write_text f ls w = set_file_lines f ls (w\<lparr>trace := trace w @ [Write_lines f ls]\<rparr>)"

text \<open>
  Modelled from the spec: \<open>disable_workflow\<close> is defined in \<open>helpers\<close>, which is not
  among the sources. The spec has it as a best-effort remote call whose failure is
  not fatal; the code ignores what it returns.
\<close>

definition disable_workflow :: "gateway \<Rightarrow> string \<Rightarrow> string \<Rightarrow> string \<Rightarrow> world \<Rightarrow> world" where
  "disable_workflow gw repo token name w = snd (run_gh_api gw (Disable_workflow repo name) token w)"

record config =
  main_account_username :: string
  main_repo_name :: string
  main_token :: string

definition get_error :: "response \<Rightarrow> string" where
  "get_error r = (case error r of Some e \<Rightarrow> e | None \<Rightarrow> [])"

section \<open>invoke_auto_invite\<close>

text \<open>
  One pass of the loop of \<open>invoke_auto_invite\<close>. The counters are
  \<open>(success_count, failed_count)\<close>. \<open>result['error']\<close> in the last branch raises
  \<open>KeyError\<close> when the result has no error text; nothing catches it.
\<close>

definition invite_one ::
  "gateway \<Rightarrow> config \<Rightarrow> string \<Rightarrow> string \<Rightarrow> nat \<times> nat \<Rightarrow> world \<Rightarrow> (nat \<times> nat) res \<times> world" where
  "invite_one gw cfg repo_path username cnt w =
     (let (result, w1) = run_gh_api gw (Put_collaborator repo_path username) (main_token cfg) w
      in if success result
         then (Ok (fst cnt + 1, snd cnt), sleep 1 (append_to_file Invited username w1))
         else (let error_msg = lower (get_error result)
               in if str_in ''already a collaborator'' error_msg
                  then (Ok (fst cnt + 1, snd cnt), sleep 1 (append_to_file Invited username w1))
                  else (case error result of
                          None \<Rightarrow> (Raise KeyError, w1)
                        | Some e \<Rightarrow>
                            (Ok (fst cnt, snd cnt + 1), sleep 1 (print_error (Err_invite e) w1)))))"

fun invite_loop ::
  "gateway \<Rightarrow> config \<Rightarrow> string \<Rightarrow> string list \<Rightarrow> nat \<times> nat \<Rightarrow> world \<Rightarrow> (nat \<times> nat) res \<times> world" where
  "invite_loop gw cfg repo_path [] cnt w = (Ok cnt, w)"
| "invite_loop gw cfg repo_path (username # rest) cnt w =
     (case invite_one gw cfg repo_path username cnt w of
        (Raise e, w1) \<Rightarrow> (Raise e, w1)
      | (Ok cnt1, w1) \<Rightarrow> invite_loop gw cfg repo_path rest cnt1 w1)"

text \<open>The token cache is a dict from token to username, in its insertion order.\<close>

type_synonym token_cache = "(string \<times> string) list"

definition users_to_invite :: "config \<Rightarrow> token_cache \<Rightarrow> world \<Rightarrow> string list" where
  "users_to_invite cfg tc w =
     filter (\<lambda>u. u \<notin> set (read_file_lines Invited w) \<and> u \<noteq> main_account_username cfg)
       (map snd tc)"

text \<open>
  The flow returns nothing; the model returns the counters of its closing report,
  \<open>None\<close> where the flow returns early.
\<close>

definition invoke_auto_invite ::
  "gateway \<Rightarrow> config option \<Rightarrow> token_cache \<Rightarrow> world \<Rightarrow> (nat \<times> nat) option res \<times> world" where
  "invoke_auto_invite gw config tc w =
     (case config of
        None \<Rightarrow> (Ok None, print_error Err_config_unset w)
      | Some cfg \<Rightarrow>
          if tc = [] then (Ok None, print_error Err_token_cache_empty w)
          else if users_to_invite cfg tc w = [] then (Ok None, w)
          else (let repo_path = main_account_username cfg @ ''/'' @ main_repo_name cfg
                in case invite_loop gw cfg repo_path (users_to_invite cfg tc w) (0, 0) w of
                     (Raise e, w1) \<Rightarrow> (Raise e, w1)
                   | (Ok cnt, w1) \<Rightarrow> (Ok (Some cnt), w1)))"

section \<open>invoke_auto_accept\<close>

text \<open>The condition of the generator expression, for one invitation.\<close>

definition inv_matches :: "string \<Rightarrow> json \<Rightarrow> bool res" where
  "inv_matches target_repo invitation =
     bind_res (py_get invitation ''repository'' (JObj [])) (\<lambda>repository.
     bind_res (py_get repository ''full_name'' (JStr [])) (\<lambda>full_name.
     bind_res (py_lower full_name) (\<lambda>s. Ok (s = target_repo))))"

text \<open>\<open>next((inv['id'] for inv in invitations if ...), None)\<close>: the first match decides,
  later invitations are not looked at.\<close>

fun next_inv_id :: "string \<Rightarrow> json list \<Rightarrow> json res" where
  "next_inv_id target_repo [] = Ok JNull"
| "next_inv_id target_repo (invitation # rest) =
     (case inv_matches target_repo invitation of
        Raise e \<Rightarrow> Raise e
      | Ok True \<Rightarrow> py_item invitation ''id''
      | Ok False \<Rightarrow> next_inv_id target_repo rest)"

text \<open>The body of the \<open>try\<close>. The counters are
  \<open>(accepted_count, skipped_count, no_invite_count)\<close>.\<close>

definition accept_body ::
  "gateway \<Rightarrow> (string \<Rightarrow> json option) \<Rightarrow> string \<Rightarrow> string \<Rightarrow> string \<Rightarrow> response \<Rightarrow>
   nat \<times> nat \<times> nat \<Rightarrow> world \<Rightarrow> (nat \<times> nat \<times> nat) res \<times> world" where
  "accept_body gw json_loads target_repo token username result cnt w =
     (case json_loads (output_text result) of
        None \<Rightarrow> (Raise JSONDecodeError, w)
      | Some invitations \<Rightarrow>
          (case bind_res (py_iter invitations) (next_inv_id target_repo) of
             Raise e \<Rightarrow> (Raise e, w)
           | Ok inv_id \<Rightarrow>
               if truthy inv_id
               then (let (accept_result, w1) = run_gh_api gw (Accept_invitation inv_id) token w
                     in if success accept_result
                        then (case cnt of (a, s, n) \<Rightarrow>
                                (Ok (a + 1, s, n), append_to_file Accepted username w1))
                        else (case error accept_result of
                                None \<Rightarrow> (Raise KeyError, w1)
                              | Some e \<Rightarrow> (Ok cnt, print_error (Err_accept e) w1)))
               else (case cnt of (a, s, n) \<Rightarrow> (Ok (a, s, n + 1), w))))"

text \<open>One pass of the loop. \<open>accepted\<close> is the checklist as read before the loop.\<close>

definition accept_one ::
  "gateway \<Rightarrow> (string \<Rightarrow> json option) \<Rightarrow> string \<Rightarrow> string list \<Rightarrow> string \<times> string \<Rightarrow>
   nat \<times> nat \<times> nat \<Rightarrow> world \<Rightarrow> (nat \<times> nat \<times> nat) res \<times> world" where
  "accept_one gw json_loads target_repo accepted tu cnt w =
     (case tu of (token, username) \<Rightarrow>
        if username \<in> set accepted
        then (case cnt of (a, s, n) \<Rightarrow> (Ok (a, s + 1, n), w))
        else (let (result, w1) = run_gh_api gw List_invitations token w
              in if \<not> success result
                 then (Ok cnt, print_error Err_fetch_invitations w1)
                 else (case accept_body gw json_loads target_repo token username result cnt w1 of
                         (Ok cnt1, w2) \<Rightarrow> (Ok cnt1, sleep 1 w2)
                       | (Raise e, w2) \<Rightarrow>
                           if e = JSONDecodeError \<or> e = KeyError
                           then (Ok cnt, sleep 1 (print_error Err_parse_json w2))
                           else (Raise e, w2))))"

fun accept_loop ::
  "gateway \<Rightarrow> (string \<Rightarrow> json option) \<Rightarrow> string \<Rightarrow> string list \<Rightarrow> token_cache \<Rightarrow>
   nat \<times> nat \<times> nat \<Rightarrow> world \<Rightarrow> (nat \<times> nat \<times> nat) res \<times> world" where
  "accept_loop gw json_loads target_repo accepted [] cnt w = (Ok cnt, w)"
| "accept_loop gw json_loads target_repo accepted (tu # rest) cnt w =
     (case accept_one gw json_loads target_repo accepted tu cnt w of
        (Raise e, w1) \<Rightarrow> (Raise e, w1)
      | (Ok cnt1, w1) \<Rightarrow> accept_loop gw json_loads target_repo accepted rest cnt1 w1)"

definition invoke_auto_accept ::
  "gateway \<Rightarrow> (string \<Rightarrow> json option) \<Rightarrow> config option \<Rightarrow> token_cache \<Rightarrow> world \<Rightarrow>
   (nat \<times> nat \<times> nat) option res \<times> world" where
  "invoke_auto_accept gw json_loads config tc w =
     (case config of
        None \<Rightarrow> (Ok None, print_error Err_config_or_cache_missing w)
      | Some cfg \<Rightarrow>
          if tc = [] then (Ok None, print_error Err_config_or_cache_missing w)
          else (let target_repo = lower (main_account_username cfg @ ''/'' @ main_repo_name cfg);
                    accepted = read_file_lines Accepted w
                in case accept_loop gw json_loads target_repo accepted tc (0, 0, 0) w of
                     (Raise e, w1) \<Rightarrow> (Raise e, w1)
                   | (Ok cnt, w1) \<Rightarrow> (Ok (Some cnt), w1)))"

section \<open>The fork prober and the fork lifecycle\<close>

definition check_if_correct_fork ::
  "gateway \<Rightarrow> string \<Rightarrow> string \<Rightarrow> string \<Rightarrow> world \<Rightarrow> bool \<times> world" where
  "check_if_correct_fork gw repo_path token expected_parent w =
     (let (result, w1) = run_gh_api gw (Get_parent repo_path) token w
      in if \<not> success result then (False, w1)
         else (let parent = strip_quotes (strip (output_text result))
               in (lower parent = lower expected_parent, w1)))"

definition get_default_branch :: "gateway \<Rightarrow> string \<Rightarrow> string \<Rightarrow> world \<Rightarrow> string \<times> world" where
  "get_default_branch gw repo_path token w =
     (let (result, w1) = run_gh_api gw (Get_default_branch repo_path) token w
      in if success result \<and> strip (output_text result) \<noteq> []
         then (strip_quotes (strip (output_text result)), w1)
         else (''main'', w1))"

definition delete_repository :: "gateway \<Rightarrow> string \<Rightarrow> string \<Rightarrow> world \<Rightarrow> bool \<times> world" where
  "delete_repository gw repo_path token w =
     (let (result, w1) = run_gh_api gw (Delete_repo repo_path) token w
      in if success result then (True, sleep 5 w1)
         else (False,
               print_error (Err_delete repo_path)
                 (write_log (Log_delete_failed repo_path (error result)) w1)))"

definition sync_fork_with_upstream :: "gateway \<Rightarrow> string \<Rightarrow> string \<Rightarrow> world \<Rightarrow> bool \<times> world" where
  "sync_fork_with_upstream gw fork_repo token w =
     (let (default_branch, w1) = get_default_branch gw fork_repo token w;
          w2 = disable_workflow gw fork_repo token ''datagram-runner.yml'' w1;
          (sync_result, w3) = run_gh_api gw (Merge_upstream fork_repo default_branch) token w2
      in if success sync_result then (True, w3)
         else (let error_msg = lower (get_error sync_result)
               in if list_ex (\<lambda>keyword. str_in keyword error_msg)
                       [''up-to-date'', ''up to date'', ''already'']
                  then (True, w3)
                  else (False, w3)))"

text \<open>
  The readiness poll of \<open>create_new_fork\<close>: \<open>timeout = 120\<close>, the clock is read at the
  head of every pass, a failed probe is followed by \<open>time.sleep(5)\<close>. The result is
  \<open>fork_created\<close>.
\<close>

function poll_fork :: "gateway \<Rightarrow> string \<Rightarrow> string \<Rightarrow> nat \<Rightarrow> world \<Rightarrow> bool \<times> world" where
  "poll_fork gw fork_repo_path token start_time w =
     (if int (now w) - int start_time < 120
      then (let (check_result, w1) = run_gh_api gw (Get_repo fork_repo_path) token w
            in if success check_result then (True, w1)
               else poll_fork gw fork_repo_path token start_time (sleep 5 w1))
      else (False, w))"
  by pat_completeness auto
termination
  by (relation "measure (\<lambda>(gw, p, t, start_time, w). 120 + start_time - now w)")
     (auto simp: run_gh_api_def sleep_def Let_def)

text \<open>The stale-entry repair at the head of \<open>create_new_fork\<close>.\<close>

definition remove_stale_entry :: "string \<Rightarrow> world \<Rightarrow> world" where
  "remove_stale_entry username w =
     (if username \<in> set (read_file_lines Forked w)
      then (let lines = read_file_lines Forked w;
                new_lines = filter (\<lambda>line. line \<noteq> username) lines
            in write_text Forked new_lines w)
      else w)"

text \<open>\<open>source_repo.split('/')[1]\<close> raises \<open>IndexError\<close> on a path without a slash.\<close>

definition create_new_fork ::
  "gateway \<Rightarrow> string \<Rightarrow> string \<Rightarrow> string \<Rightarrow> world \<Rightarrow> bool res \<times> world" where
  "create_new_fork gw username token source_repo w =
     (case split_on CHR ''/'' source_repo of
        owner # name # _ \<Rightarrow>
          (let fork_repo_path = username @ ''/'' @ name;
               w1 = remove_stale_entry username w;
               (result, w2) = run_gh_api gw (Create_fork source_repo) token w1
           in if \<not> success result
                 \<and> \<not> str_in ''forks must have unique names'' (lower (get_error result))
              then (Ok False,
                    write_log (Log_fork_failed username (error result))
                      (print_error (Err_fork_creation (error result)) w2))
              else (let (fork_created, w3) = poll_fork gw fork_repo_path token (now w2) w2
                    in if \<not> fork_created then (Ok False, print_error Err_timeout w3)
                       else (let w4 = disable_workflow gw fork_repo_path token
                                        ''datagram-runner.yml'' w3
                             in (Ok True, append_to_file Forked username w4))))
      | _ \<Rightarrow> (Raise IndexError, w))"

section \<open>invoke_auto_create_or_sync_fork\<close>

text \<open>\<open>{u: t for t, u in token_cache.items() if u != main_username}\<close>: a later token of
  the same username replaces the earlier one, at the earlier one's place.\<close>

definition users_to_process :: "string \<Rightarrow> token_cache \<Rightarrow> (string \<times> string) list" where
  "users_to_process main_username tc =
     foldl (\<lambda>d tu. if snd tu \<noteq> main_username then AList.update (snd tu) (fst tu) d else d) [] tc"

text \<open>The operator's answers are the lines of standard input; \<open>input\<close> on an exhausted
  input raises \<open>EOFError\<close>. This is the \<open>while True\<close> loop that asks for the mode.\<close>

fun read_mode :: "string list \<Rightarrow> (string \<times> string list) res" where
  "read_mode [] = Raise EOFError"
| "read_mode (l # ls) =
     (let action = strip l
      in if action \<in> set [''1'', ''2''] then Ok (action, ls) else read_mode ls)"

text \<open>\<open>if create_new_fork(...): success_count += 1 else: failed_count += 1\<close>, then the
  pacing sleep that ends the pass. The counters are \<open>(success_count, failed_count)\<close>.\<close>

definition create_and_count ::
  "gateway \<Rightarrow> string \<Rightarrow> string \<Rightarrow> string \<Rightarrow> nat \<times> nat \<Rightarrow> world \<Rightarrow> (nat \<times> nat) res \<times> world" where
  "create_and_count gw username token source_repo cnt w =
     (case create_new_fork gw username token source_repo w of
        (Raise e, w1) \<Rightarrow> (Raise e, w1)
      | (Ok True, w1) \<Rightarrow> (Ok (fst cnt + 1, snd cnt), sleep 2 w1)
      | (Ok False, w1) \<Rightarrow> (Ok (fst cnt, snd cnt + 1), sleep 2 w1))"

text \<open>One pass of the loop over \<open>users_to_process\<close>. A failed deletion leaves the pass
  by \<open>continue\<close>, before the pacing sleep.\<close>

definition process_user ::
  "gateway \<Rightarrow> string \<Rightarrow> string \<Rightarrow> string \<Rightarrow> string \<times> string \<Rightarrow> nat \<times> nat \<Rightarrow> world \<Rightarrow>
   (nat \<times> nat) res \<times> world" where
  "process_user gw action source_repo repo_name ut cnt w =
     (case ut of (username, token) \<Rightarrow>
        (let fork_repo_path = username @ ''/'' @ repo_name;
             (is_fork_valid, w1) = check_if_correct_fork gw fork_repo_path token source_repo w
         in if action = ''2''
            then (let (repo_exists_result, w2) = run_gh_api gw (Get_repo fork_repo_path) token w1
                  in if success repo_exists_result
                     then (let (deleted, w3) = delete_repository gw fork_repo_path token w2
                           in if \<not> deleted then (Ok (fst cnt, snd cnt + 1), w3)
                              else create_and_count gw username token source_repo cnt w3)
                     else create_and_count gw username token source_repo cnt w2)
            else if action = ''1''
            then (if is_fork_valid
                  then (let (synced, w2) = sync_fork_with_upstream gw fork_repo_path token w1
                        in if synced then (Ok (fst cnt + 1, snd cnt), sleep 2 w2)
                           else (Ok (fst cnt, snd cnt + 1), sleep 2 w2))
                  else create_and_count gw username token source_repo cnt w1)
            else (Ok cnt, sleep 2 w1)))"

fun fork_loop ::
  "gateway \<Rightarrow> string \<Rightarrow> string \<Rightarrow> string \<Rightarrow> (string \<times> string) list \<Rightarrow> nat \<times> nat \<Rightarrow> world \<Rightarrow>
   (nat \<times> nat) res \<times> world" where
  "fork_loop gw action source_repo repo_name [] cnt w = (Ok cnt, w)"
| "fork_loop gw action source_repo repo_name (ut # rest) cnt w =
     (case process_user gw action source_repo repo_name ut cnt w of
        (Raise e, w1) \<Rightarrow> (Raise e, w1)
      | (Ok cnt1, w1) \<Rightarrow> fork_loop gw action source_repo repo_name rest cnt1 w1)"

definition run_fork_loop ::
  "gateway \<Rightarrow> string \<Rightarrow> config \<Rightarrow> token_cache \<Rightarrow> world \<Rightarrow> (nat \<times> nat) option res \<times> world" where
  "run_fork_loop gw action cfg tc w =
     (let main_username = main_account_username cfg;
          source_repo = main_username @ ''/'' @ main_repo_name cfg;
          repo_name = main_repo_name cfg
      in case fork_loop gw action source_repo repo_name
                (users_to_process main_username tc) (0, 0) w of
           (Raise e, w1) \<Rightarrow> (Raise e, w1)
         | (Ok cnt, w1) \<Rightarrow> (Ok (Some cnt), w1))"

text \<open>The flow, from the loading of the configuration to the closing report. It returns
  nothing; the model returns the counters of the report, \<open>None\<close> where the flow returns
  early.\<close>

definition invoke_auto_create_or_sync_fork ::
  "gateway \<Rightarrow> config option \<Rightarrow> token_cache \<Rightarrow> string list \<Rightarrow> world \<Rightarrow>
   (nat \<times> nat) option res \<times> world" where
  "invoke_auto_create_or_sync_fork gw config tc inputs w =
     (case config of
        None \<Rightarrow> (Ok None, print_error Err_config_unset w)
      | Some cfg \<Rightarrow>
          if tc = [] then (Ok None, print_error Err_token_cache_empty w)
          else if users_to_process (main_account_username cfg) tc = [] then (Ok None, w)
          else (case read_mode inputs of
                  Raise e \<Rightarrow> (Raise e, w)
                | Ok (action, inputs1) \<Rightarrow>
                    if action = ''1'' then run_fork_loop gw action cfg tc w
                    else (case inputs1 of
                            [] \<Rightarrow> (Raise EOFError, w)
                          | answer # _ \<Rightarrow>
                              if lower answer \<noteq> ''y'' then (Ok None, w)
                              else run_fork_loop gw action cfg tc w)))"

section \<open>Traces, and sample inputs\<close>

text \<open>The events a run adds to the trace.\<close>

definition new_events :: "world \<Rightarrow> world \<Rightarrow> event list" where
  "new_events w w' = drop (length (trace w)) (trace w')"

definition w0 :: world where
  "w0 = \<lparr>now = 0, trace = [], invited_users = [], accepted_users = [], forked_repos = []\<rparr>"

definition cfg0 :: config where
  "cfg0 = \<lparr>main_account_username = ''main'', main_repo_name = ''repo'', main_token = ''tm''\<rparr>"

definition resp_ok :: response where
  "resp_ok = \<lparr>success = True, output_text = [], error = None, elapsed = 0\<rparr>"

definition resp_fail :: "string \<Rightarrow> response" where
  "resp_fail e = \<lparr>success = False, output_text = [], error = Some e, elapsed = 0\<rparr>"

text \<open>\<open>all_new P w w'\<close>: the trace of \<open>w'\<close> is the trace of \<open>w\<close> followed by events that
  all satisfy \<open>P\<close>.\<close>

definition all_new :: "(event \<Rightarrow> bool) \<Rightarrow> world \<Rightarrow> world \<Rightarrow> bool" where
  "all_new P w w' = (\<exists>es. trace w' = trace w @ es \<and> list_all P es)"

text \<open>A gateway that fails every invite, fork creation and merge with one of the
  error texts the code knows, in mixed case, and answers every other call with success.\<close>

definition gw_known_errors :: gateway where
  "gw_known_errors w c t =
     (case c of
        Put_collaborator _ _ \<Rightarrow> resp_fail ''User is Already a Collaborator''
      | Create_fork _ \<Rightarrow> resp_fail ''Validation Failed: Forks must have unique names''
      | Merge_upstream _ _ \<Rightarrow> resp_fail ''Branch is Already Up-To-Date''
      | _ \<Rightarrow> resp_ok)"

text \<open>A gateway that invites \<open>alice\<close> afresh and finds everybody else a collaborator
  already.\<close>

definition gw_invite :: gateway where
  "gw_invite w c t =
     (case c of
        Put_collaborator _ u \<Rightarrow>
          if u = ''alice'' then resp_ok else resp_fail ''already a collaborator''
      | _ \<Rightarrow> resp_ok)"

definition tc0 :: token_cache where
  "tc0 = [(''ta'', ''alice''), (''tm'', ''main''), (''tb'', ''bob''), (''tc'', ''carol'')]"

text \<open>Two listings: \<open>list\<close> holds one invitation to \<open>Main/Repo\<close> with id 7,
  \<open>bad\<close> does not parse. The gateway gives \<open>bad\<close> to the token \<open>tb\<close>.\<close>

definition jl0 :: "string \<Rightarrow> json option" where
  "jl0 s =
     (if s = ''list''
      then Some (JArr [JObj [(''id'', JNum 7),
                             (''repository'', JObj [(''full_name'', JStr ''Main/Repo'')])]])
      else None)"

definition resp_out :: "string \<Rightarrow> response" where
  "resp_out s = \<lparr>success = True, output_text = s, error = None, elapsed = 0\<rparr>"

definition gw_accept :: gateway where
  "gw_accept w c t =
     (case c of
        List_invitations \<Rightarrow> if t = ''tb'' then resp_out ''bad'' else resp_out ''list''
      | _ \<Rightarrow> resp_ok)"

text \<open>The events of a run of failed readiness probes, each followed by its sleep.\<close>

definition failed_probes :: "string \<Rightarrow> string \<Rightarrow> response list \<Rightarrow> event list" where
  "failed_probes p t rs = concat (map (\<lambda>r. [Call (Get_repo p) t r, Sleep 5]) rs)"

text \<open>A gateway on which nothing is ever found, and every call takes 8 time units.\<close>

definition gw_slow :: gateway where
  "gw_slow w c t = \<lparr>success = False, output_text = [], error = Some ''Not Found'', elapsed = 8\<rparr>"

text \<open>
  The calls the fork flow may issue on behalf of the account \<open>u\<close>, given the source
  repository \<open>src\<close> and the repository name \<open>rn\<close>: parentage probe, default-branch
  query, deletion and merge address \<open>u/rn\<close>, which is not the source repository; a
  fork creation names the source repository and creates under the credential's account;
  existence probes and the disabling of the workflow address the fork.
\<close>

definition call_ok :: "string \<Rightarrow> string \<Rightarrow> string \<Rightarrow> api_call \<Rightarrow> bool" where
  "call_ok src rn u c =
     (case c of
        Delete_repo p \<Rightarrow> p = u @ ''/'' @ rn \<and> p \<noteq> src
      | Merge_upstream p b \<Rightarrow> p = u @ ''/'' @ rn \<and> p \<noteq> src
      | Get_parent p \<Rightarrow> p = u @ ''/'' @ rn
      | Get_default_branch p \<Rightarrow> p = u @ ''/'' @ rn
      | Create_fork s \<Rightarrow> s = src
      | Get_repo p \<Rightarrow> True
      | Disable_workflow p n \<Rightarrow> True
      | _ \<Rightarrow> False)"

text \<open>A gateway on which every call succeeds at once, and one on which only the token
  \<open>ta\<close> has a fork of \<open>Main/Repo\<close> and no repository can be deleted.\<close>

definition gw_ok :: gateway where
  "gw_ok w c t = resp_ok"

definition gw_forks :: gateway where
  "gw_forks w c t =
     (case c of
        Get_parent p \<Rightarrow>
          if t = ''ta'' then resp_out (CHR 0x22 # ''Main/Repo'' @ [CHR 0x22, CHR 0x0A])
          else resp_fail ''Not Found''
      | Delete_repo p \<Rightarrow> resp_fail ''Forbidden''
      | _ \<Rightarrow> resp_ok)"

definition tc1 :: token_cache where
  "tc1 = [(''tm'', ''main''), (''ta'', ''alice'')]"

text \<open>A token cache that holds the main account under the spelling \<open>Main\<close>, where
  the configuration \<open>cfg0\<close> spells it \<open>main\<close>.\<close>

definition tc_main :: token_cache where
  "tc_main = [(''tM'', ''Main'')]"

section \<open>Properties\<close>

subsection \<open>The primitives, field by field\<close>

lemma run_gh_api_fields [simp]:
  "fst (run_gh_api gw c t w) = gw w c t"
  "trace (snd (run_gh_api gw c t w)) = trace w @ [Call c t (gw w c t)]"
  "now (snd (run_gh_api gw c t w)) = now w + elapsed (gw w c t)"
  "invited_users (snd (run_gh_api gw c t w)) = invited_users w"
  "accepted_users (snd (run_gh_api gw c t w)) = accepted_users w"
  "forked_repos (snd (run_gh_api gw c t w)) = forked_repos w"
  by (simp_all add: run_gh_api_def Let_def)

lemma sleep_fields [simp]:
  "trace (sleep n w) = trace w @ [Sleep n]"
  "now (sleep n w) = now w + n"
  "invited_users (sleep n w) = invited_users w"
  "accepted_users (sleep n w) = accepted_users w"
  "forked_repos (sleep n w) = forked_repos w"
  by (simp_all add: sleep_def)

lemma print_error_fields [simp]:
  "trace (print_error m w) = trace w @ [Print_error m]"
  "now (print_error m w) = now w"
  "invited_users (print_error m w) = invited_users w"
  "accepted_users (print_error m w) = accepted_users w"
  "forked_repos (print_error m w) = forked_repos w"
  by (simp_all add: print_error_def)

lemma write_log_fields [simp]:
  "trace (write_log l w) = trace w @ [Log l]"
  "now (write_log l w) = now w"
  "invited_users (write_log l w) = invited_users w"
  "accepted_users (write_log l w) = accepted_users w"
  "forked_repos (write_log l w) = forked_repos w"
  by (simp_all add: write_log_def)

lemma disable_workflow_fields [simp]:
  "trace (disable_workflow gw p t n w) = trace w @ [Call (Disable_workflow p n) t (gw w (Disable_workflow p n) t)]"
  "now (disable_workflow gw p t n w) = now w + elapsed (gw w (Disable_workflow p n) t)"
  "invited_users (disable_workflow gw p t n w) = invited_users w"
  "accepted_users (disable_workflow gw p t n w) = accepted_users w"
  "forked_repos (disable_workflow gw p t n w) = forked_repos w"
  by (simp_all add: disable_workflow_def)

lemma append_to_file_trace [simp]:
  "trace (append_to_file f u w) = trace w @ [Append_line f u]"
  "now (append_to_file f u w) = now w"
  by (cases f; simp add: append_to_file_def Let_def set_file_lines_def read_file_lines_def)+

lemma append_to_file_lists [simp]:
  "invited_users (append_to_file f u w)
     = (if f = Invited \<and> u \<notin> set (invited_users w) then invited_users w @ [u] else invited_users w)"
  "accepted_users (append_to_file f u w)
     = (if f = Accepted \<and> u \<notin> set (accepted_users w) then accepted_users w @ [u] else accepted_users w)"
  "forked_repos (append_to_file f u w)
     = (if f = Forked \<and> u \<notin> set (forked_repos w) then forked_repos w @ [u] else forked_repos w)"
  by (cases f; simp add: append_to_file_def Let_def set_file_lines_def read_file_lines_def)+

lemma write_text_fields [simp]:
  "trace (write_text f ls w) = trace w @ [Write_lines f ls]"
  "now (write_text f ls w) = now w"
  "invited_users (write_text f ls w) = (if f = Invited then ls else invited_users w)"
  "accepted_users (write_text f ls w) = (if f = Accepted then ls else accepted_users w)"
  "forked_repos (write_text f ls w) = (if f = Forked then ls else forked_repos w)"
  by (cases f; simp add: write_text_def set_file_lines_def)+

lemma new_events_append [simp]: "trace w' = trace w @ es \<Longrightarrow> new_events w w' = es"
  by (simp add: new_events_def)

subsection \<open>A declined confirmation\<close>

text \<open>
  Claim C6. In destructive mode (the mode read is not \<open>1\<close>, so it is \<open>2\<close>), when the
  answer to the confirmation prompt is not \<open>y\<close> in either case, the flow returns
  before the loop over the accounts: its trace gains no gateway call (at most the error
  line of a missing configuration or an empty token cache, which end the flow before the
  prompt), no checklist changes, the clock does not move, and where configuration and
  token cache are present the world is left exactly as it was.
\<close>

theorem declined_confirmation_aborts:
  assumes "read_mode inputs = Ok (action, answer # rest)"
    and "action \<noteq> ''1''"
    and "lower answer \<noteq> ''y''"
    and "invoke_auto_create_or_sync_fork gw config tc inputs w = (r, w')"
  shows "r = Ok None
       \<and> (\<forall>e \<in> set (new_events w w'). \<exists>m. e = Print_error m)
       \<and> invited_users w' = invited_users w
       \<and> accepted_users w' = accepted_users w
       \<and> forked_repos w' = forked_repos w
       \<and> now w' = now w
       \<and> (config \<noteq> None \<and> tc \<noteq> [] \<longrightarrow> w' = w)"
  using assms
  by (cases config)
     (auto simp: new_events_def invoke_auto_create_or_sync_fork_def split: if_splits)

theorem declined_confirmation_aborts_witness:
  "invoke_auto_create_or_sync_fork (\<lambda>w c t. resp_ok) (Some cfg0) [(''ta'', ''alice'')]
     [''x'', '' 2 '', ''No''] w0 = (Ok None, w0)"
proof -
  obtain r w' where rw: "invoke_auto_create_or_sync_fork (\<lambda>w c t. resp_ok) (Some cfg0)
      [(''ta'', ''alice'')] [''x'', '' 2 '', ''No''] w0 = (r, w')"
    by (cases "invoke_auto_create_or_sync_fork (\<lambda>w c t. resp_ok) (Some cfg0)
      [(''ta'', ''alice'')] [''x'', '' 2 '', ''No''] w0")
  have 1: "read_mode [''x'', '' 2 '', ''No''] = Ok (''2'', [''No''])"
    by (simp add: strip_def strip_chars_def is_space_def)
  have 2: "''2'' \<noteq> ''1''" by simp
  have 3: "lower ''No'' \<noteq> ''y''" by (simp add: lower_def lower_char_def)
  from declined_confirmation_aborts [OF 1 2 3 rw] rw show ?thesis by simp
qed

subsection \<open>New events of a run\<close>

lemma all_new_refl [simp]: "all_new P w w"
  by (simp add: all_new_def)

lemma all_new_trans: "all_new P w w1 \<Longrightarrow> all_new P w1 w2 \<Longrightarrow> all_new P w w2"
  by (auto simp: all_new_def)

lemma all_new_one: "trace w' = trace w @ [e] \<Longrightarrow> P e \<Longrightarrow> all_new P w w'"
  by (simp add: all_new_def)

lemma all_new_then: "all_new P w w1 \<Longrightarrow> trace w2 = trace w1 @ [e] \<Longrightarrow> P e \<Longrightarrow> all_new P w w2"
  by (auto simp: all_new_def)

lemma all_new_events: "all_new P w w' \<Longrightarrow> e \<in> set (new_events w w') \<Longrightarrow> P e"
  by (auto simp: all_new_def new_events_def list_all_iff)

lemma all_new_trace: "all_new P w w' \<Longrightarrow> trace w' = trace w @ new_events w w'"
  by (auto simp: all_new_def new_events_def)

lemma all_new_mono: "all_new P w w' \<Longrightarrow> (\<And>e. P e \<Longrightarrow> Q e) \<Longrightarrow> all_new Q w w'"
  by (auto simp: all_new_def list_all_iff)

lemma all_new_sleep: "all_new P w w1 \<Longrightarrow> P (Sleep n) \<Longrightarrow> all_new P w (sleep n w1)"
  by (auto simp: all_new_def)

lemma all_new_print_error:
  "all_new P w w1 \<Longrightarrow> P (Print_error m) \<Longrightarrow> all_new P w (print_error m w1)"
  by (auto simp: all_new_def)

lemma all_new_write_log: "all_new P w w1 \<Longrightarrow> P (Log l) \<Longrightarrow> all_new P w (write_log l w1)"
  by (auto simp: all_new_def)

lemma all_new_append_to_file:
  "all_new P w w1 \<Longrightarrow> P (Append_line f u) \<Longrightarrow> all_new P w (append_to_file f u w1)"
  by (auto simp: all_new_def)

lemma all_new_write_text:
  "all_new P w w1 \<Longrightarrow> P (Write_lines f ls) \<Longrightarrow> all_new P w (write_text f ls w1)"
  by (auto simp: all_new_def)

lemma all_new_run_gh_api:
  "all_new P w w1 \<Longrightarrow> P (Call c t (gw w1 c t)) \<Longrightarrow> all_new P w (snd (run_gh_api gw c t w1))"
  by (auto simp: all_new_def)

lemma all_new_disable_workflow:
  "all_new P w w1 \<Longrightarrow> P (Call (Disable_workflow p n) t (gw w1 (Disable_workflow p n) t))
   \<Longrightarrow> all_new P w (disable_workflow gw p t n w1)"
  by (auto simp: all_new_def)

subsection \<open>The events of the invite flow\<close>

lemma invite_one_new:
  assumes "\<And>r. P (Call (Put_collaborator rp u) (main_token cfg) r)"
    and "\<And>n. P (Sleep n)" and "P (Append_line Invited u)" and "\<And>m. P (Print_error m)"
  shows "all_new P w (snd (invite_one gw cfg rp u cnt w))"
  using assms
  by (auto simp: invite_one_def all_new_def split_def Let_def split: option.splits)

lemma invite_loop_new:
  assumes "\<And>u r. u \<in> set us \<Longrightarrow> P (Call (Put_collaborator rp u) (main_token cfg) r)"
    and "\<And>n. P (Sleep n)" and "\<And>u. u \<in> set us \<Longrightarrow> P (Append_line Invited u)"
    and "\<And>m. P (Print_error m)"
  shows "all_new P w (snd (invite_loop gw cfg rp us cnt w))"
  using assms
proof (induction us arbitrary: cnt w)
  case Nil
  then show ?case by simp
next
  case (Cons u us)
  have one: "all_new P w (snd (invite_one gw cfg rp u cnt w))"
    by (rule invite_one_new) (simp_all add: Cons.prems)
  show ?case
  proof (cases "invite_one gw cfg rp u cnt w")
    case (Pair r w1)
    show ?thesis
    proof (cases r)
      case (Raise e)
      with Pair one show ?thesis by simp
    next
      case (Ok cnt1)
      have "all_new P w1 (snd (invite_loop gw cfg rp us cnt1 w1))"
        by (rule Cons.IH) (simp_all add: Cons.prems)
      with Pair Ok one show ?thesis by (auto intro: all_new_trans)
    qed
  qed
qed

lemma invoke_auto_invite_new:
  assumes "\<And>u r rp t. u \<in> snd ` set tc \<Longrightarrow> u \<notin> set (invited_users w) \<Longrightarrow>
             (\<forall>cfg. config = Some cfg \<longrightarrow> u \<noteq> main_account_username cfg
                \<and> rp = main_account_username cfg @ ''/'' @ main_repo_name cfg \<and> t = main_token cfg)
             \<Longrightarrow> P (Call (Put_collaborator rp u) t r)"
    and "\<And>n. P (Sleep n)" and "\<And>u. P (Append_line Invited u)"
    and "\<And>m. P (Print_error m)"
  shows "all_new P w (snd (invoke_auto_invite gw config tc w))"
proof (cases config)
  case None
  then show ?thesis by (auto simp: invoke_auto_invite_def intro: all_new_one assms)
next
  case (Some cfg)
  have "all_new P w (snd (invite_loop gw cfg (main_account_username cfg @ ''/'' @ main_repo_name cfg)
          (users_to_invite cfg tc w) (0, 0) w))"
    by (rule invite_loop_new)
       (auto simp: users_to_invite_def read_file_lines_def Some intro!: assms)
  with Some show ?thesis
    by (auto simp: invoke_auto_invite_def Let_def split: prod.splits res.splits
        intro: all_new_one assms)
qed


subsection \<open>Classification of error texts\<close>

lemma startswith_append: "startswith (xs @ ys) zs \<Longrightarrow> startswith xs zs"
  by (induction xs zs rule: startswith.induct) auto

lemma str_in_append: "str_in (xs @ ys) zs \<Longrightarrow> str_in xs zs"
  by (induction zs) (auto dest: startswith_append)

lemma invite_one_failed:
  assumes "\<not> success (gw w (Put_collaborator rp u) (main_token cfg))"
    and "error (gw w (Put_collaborator rp u) (main_token cfg)) = Some e"
  shows "fst (invite_one gw cfg rp u cnt w)
           = Ok (if str_in ''already a collaborator'' (lower e)
                 then (fst cnt + 1, snd cnt) else (fst cnt, snd cnt + 1))"
  using assms by (simp add: invite_one_def split_def Let_def get_error_def)

lemma create_new_fork_rejected:
  assumes "split_on CHR ''/'' src = owner # name # others"
    and "r = gw (remove_stale_entry u w) (Create_fork src) t"
    and "\<not> success r"
    and "\<not> str_in ''forks must have unique names'' (lower (get_error r))"
  shows "create_new_fork gw u t src w
           = (Ok False,
              write_log (Log_fork_failed u (error r))
                (print_error (Err_fork_creation (error r))
                   (snd (run_gh_api gw (Create_fork src) t (remove_stale_entry u w)))))"
  using assms by (simp add: create_new_fork_def split_def Let_def)

lemma create_new_fork_accepted:
  assumes "split_on CHR ''/'' src = owner # name # others"
    and "r = gw (remove_stale_entry u w) (Create_fork src) t"
    and "success r \<or> str_in ''forks must have unique names'' (lower (get_error r))"
    and "w2 = snd (run_gh_api gw (Create_fork src) t (remove_stale_entry u w))"
  shows "fst (create_new_fork gw u t src w)
           = Ok (fst (poll_fork gw (u @ ''/'' @ name) t (now w2) w2))"
  using assms by (auto simp add: create_new_fork_def split_def Let_def)

lemma sync_classified:
  "\<exists>b r. last (trace (snd (sync_fork_with_upstream gw p t w))) = Call (Merge_upstream p b) t r
     \<and> (fst (sync_fork_with_upstream gw p t w) \<longleftrightarrow>
          success r \<or> str_in ''up-to-date'' (lower (get_error r))
            \<or> str_in ''up to date'' (lower (get_error r))
            \<or> str_in ''already'' (lower (get_error r)))"
  by (simp add: sync_fork_with_upstream_def split_def Let_def)

text \<open>
  Claim C3, as amended. A failed invite with an error text is counted as a success
  exactly when the text, in lower case, contains \<open>already a collaborator\<close>, and as a
  failure otherwise. A failed fork creation goes on to the readiness poll, whose answer
  is then the result, exactly when the text contains \<open>forks must have unique names\<close>;
  otherwise it is logged and the creation returns \<open>False\<close>. A failed merge is a
  success exactly when the text contains \<open>up-to-date\<close>, \<open>up to date\<close> or
  \<open>already\<close>, which holds in particular when it contains \<open>already up-to-date\<close>.
\<close>

theorem error_text_classification:
  "(\<not> success (gw w (Put_collaborator rp u) (main_token cfg))
      \<and> error (gw w (Put_collaborator rp u) (main_token cfg)) = Some e
    \<longrightarrow> fst (invite_one gw cfg rp u cnt w)
          = Ok (if str_in ''already a collaborator'' (lower e)
                then (fst cnt + 1, snd cnt) else (fst cnt, snd cnt + 1)))
 \<and> (split_on CHR ''/'' src = owner # name # others
      \<and> r = gw (remove_stale_entry u' w') (Create_fork src) t
      \<and> w2 = snd (run_gh_api gw (Create_fork src) t (remove_stale_entry u' w'))
      \<and> \<not> success r
    \<longrightarrow> (if str_in ''forks must have unique names'' (lower (get_error r))
         then fst (create_new_fork gw u' t src w')
                = Ok (fst (poll_fork gw (u' @ ''/'' @ name) t (now w2) w2))
         else create_new_fork gw u' t src w'
                = (Ok False,
                   write_log (Log_fork_failed u' (error r))
                     (print_error (Err_fork_creation (error r)) w2))))
 \<and> (\<exists>b rs. last (trace (snd (sync_fork_with_upstream gw p t' w''))) = Call (Merge_upstream p b) t' rs
      \<and> (fst (sync_fork_with_upstream gw p t' w'') \<longleftrightarrow>
            success rs \<or> str_in ''up-to-date'' (lower (get_error rs))
              \<or> str_in ''up to date'' (lower (get_error rs))
              \<or> str_in ''already'' (lower (get_error rs)))
      \<and> (str_in ''already up-to-date'' (lower (get_error rs))
            \<longrightarrow> fst (sync_fork_with_upstream gw p t' w'')))"
proof (intro conjI impI)
  assume "\<not> success (gw w (Put_collaborator rp u) (main_token cfg))
      \<and> error (gw w (Put_collaborator rp u) (main_token cfg)) = Some e"
  then show "fst (invite_one gw cfg rp u cnt w)
          = Ok (if str_in ''already a collaborator'' (lower e)
                then (fst cnt + 1, snd cnt) else (fst cnt, snd cnt + 1))"
    by (simp add: invite_one_failed)
next
  assume a: "split_on CHR ''/'' src = owner # name # others
      \<and> r = gw (remove_stale_entry u' w') (Create_fork src) t
      \<and> w2 = snd (run_gh_api gw (Create_fork src) t (remove_stale_entry u' w'))
      \<and> \<not> success r"
  show "if str_in ''forks must have unique names'' (lower (get_error r))
         then fst (create_new_fork gw u' t src w')
                = Ok (fst (poll_fork gw (u' @ ''/'' @ name) t (now w2) w2))
         else create_new_fork gw u' t src w'
                = (Ok False,
                   write_log (Log_fork_failed u' (error r))
                     (print_error (Err_fork_creation (error r)) w2))"
  proof (cases "str_in ''forks must have unique names'' (lower (get_error r))")
    case True
    with a create_new_fork_accepted [of src owner name others r gw u' w' t w2]
    show ?thesis by auto
  next
    case False
    with a create_new_fork_rejected [of src owner name others r gw u' w' t]
    show ?thesis by auto
  qed
next
  from sync_classified [of gw p t' w''] obtain b rs where
    h: "last (trace (snd (sync_fork_with_upstream gw p t' w''))) = Call (Merge_upstream p b) t' rs"
       "fst (sync_fork_with_upstream gw p t' w'') \<longleftrightarrow>
            success rs \<or> str_in ''up-to-date'' (lower (get_error rs))
              \<or> str_in ''up to date'' (lower (get_error rs))
              \<or> str_in ''already'' (lower (get_error rs))"
    by blast
  have "str_in ''already up-to-date'' (lower (get_error rs)) \<longrightarrow> str_in ''already'' (lower (get_error rs))"
    using str_in_append [of "''already''" "'' up-to-date''" "lower (get_error rs)"] by simp
  with h show "\<exists>b rs. last (trace (snd (sync_fork_with_upstream gw p t' w''))) = Call (Merge_upstream p b) t' rs
      \<and> (fst (sync_fork_with_upstream gw p t' w'') \<longleftrightarrow>
            success rs \<or> str_in ''up-to-date'' (lower (get_error rs))
              \<or> str_in ''up to date'' (lower (get_error rs))
              \<or> str_in ''already'' (lower (get_error rs)))
      \<and> (str_in ''already up-to-date'' (lower (get_error rs))
            \<longrightarrow> fst (sync_fork_with_upstream gw p t' w''))"
    by blast
qed

theorem error_text_classification_witness:
  "fst (invite_one gw_known_errors cfg0 ''main/repo'' ''alice'' (0, 0) w0) = Ok (1, 0)
 \<and> fst (create_new_fork gw_known_errors ''alice'' ''ta'' ''main/repo'' w0) = Ok True
 \<and> fst (sync_fork_with_upstream gw_known_errors ''alice/repo'' ''ta'' w0)"
  using error_text_classification [where gw = gw_known_errors and w = w0
      and rp = "''main/repo''" and u = "''alice''" and cfg = cfg0 and cnt = "(0, 0)"
      and e = "''User is Already a Collaborator''"
      and src = "''main/repo''" and owner = "''main''" and name = "''repo''" and others = "[]"
      and u' = "''alice''" and w' = w0 and t = "''ta''"
      and r = "resp_fail ''Validation Failed: Forks must have unique names''"
      and ?w2.0 = "snd (run_gh_api gw_known_errors (Create_fork ''main/repo'') ''ta''
                     (remove_stale_entry ''alice'' w0))"
      and p = "''alice/repo''" and t' = "''ta''" and w'' = w0]
  by (simp add: gw_known_errors_def resp_fail_def resp_ok_def w0_def cfg0_def
      remove_stale_entry_def read_file_lines_def get_error_def lower_def lower_char_def
      sync_fork_with_upstream_def get_default_branch_def split_def Let_def)

text \<open>
  Claim C3 as stated fails for the sync: the text below does not contain
  \<open>already up-to-date\<close> and is still taken as a success, because the code looks for the
  keywords \<open>up-to-date\<close>, \<open>up to date\<close> and \<open>already\<close>.
\<close>

theorem sync_other_error_counterexample:
  "\<not> str_in ''already up-to-date'' (lower ''Merge conflict: branch already diverged'')
   \<and> fst (sync_fork_with_upstream (\<lambda>w c t. resp_fail ''Merge conflict: branch already diverged'')
        ''bob/repo'' ''tb'' w0) = True"
  by (simp add: sync_fork_with_upstream_def get_default_branch_def resp_fail_def
      get_error_def lower_def lower_char_def split_def Let_def)

subsection \<open>The invite flow is idempotent\<close>

lemma invite_loop_inv:
  assumes "\<And>u cnt w. u \<in> set us \<Longrightarrow> I w \<Longrightarrow> I (snd (invite_one gw cfg rp u cnt w))"
    and "I w"
  shows "I (snd (invite_loop gw cfg rp us cnt w))"
  using assms
proof (induction us arbitrary: cnt w)
  case Nil
  then show ?case by simp
next
  case (Cons u us)
  have one: "I (snd (invite_one gw cfg rp u cnt w))"
    using Cons.prems by simp
  show ?case
  proof (cases "invite_one gw cfg rp u cnt w")
    case (Pair r w1)
    show ?thesis
    proof (cases r)
      case (Raise e)
      with Pair one show ?thesis by simp
    next
      case (Ok cnt1)
      have "I (snd (invite_loop gw cfg rp us cnt1 w1))"
        using Cons.prems one Pair by (intro Cons.IH) simp_all
      with Pair Ok show ?thesis by simp
    qed
  qed
qed

lemma invite_one_count:
  "count_list (invited_users w) v \<le> 1
   \<Longrightarrow> count_list (invited_users (snd (invite_one gw cfg rp u cnt w))) v \<le> 1"
  by (auto simp: invite_one_def split_def Let_def split: option.splits)

lemma invoke_auto_invite_count:
  assumes "count_list (invited_users w) v \<le> 1"
  shows "count_list (invited_users (snd (invoke_auto_invite gw config tc w))) v \<le> 1"
proof (cases config)
  case None
  with assms show ?thesis by (simp add: invoke_auto_invite_def)
next
  case (Some cfg)
  have "count_list (invited_users (snd (invite_loop gw cfg
          (main_account_username cfg @ ''/'' @ main_repo_name cfg)
          (users_to_invite cfg tc w) (0, 0) w))) v \<le> 1"
  proof (rule invite_loop_inv [where I = "\<lambda>w. count_list (invited_users w) v \<le> 1"])
    show "count_list (invited_users w) v \<le> 1" by (rule assms)
  qed (rule invite_one_count)
  with Some assms show ?thesis
    by (auto simp: invoke_auto_invite_def Let_def split: prod.splits res.splits)
qed

lemma invite_one_recorded:
  assumes "r = gw w (Put_collaborator rp u) (main_token cfg)"
    and "success r \<or> str_in ''already a collaborator'' (lower (get_error r))"
  shows "invite_one gw cfg rp u cnt w
           = (Ok (fst cnt + 1, snd cnt),
              sleep 1 (append_to_file Invited u
                (snd (run_gh_api gw (Put_collaborator rp u) (main_token cfg) w))))"
  using assms by (auto simp: invite_one_def split_def Let_def)

text \<open>
  Claim C5. A run of the invite flow issues no invite call for an account that is in the
  invited checklist when the run starts (so a second run, which starts from the
  checklist the first one left, invites none of the accounts recorded there), and it
  never brings an account to a second entry in the checklist. In one pass of the loop,
  a successful invite and a failed one whose error text contains
  \<open>already a collaborator\<close> are handled by the same steps: the counter of successes
  goes up by one and the account is appended to the checklist, where it then stands
  exactly once.
\<close>

theorem invite_flow_idempotent:
  "(\<forall>rp u t r. Call (Put_collaborator rp u) t r
        \<in> set (new_events w (snd (invoke_auto_invite gw config tc w)))
      \<longrightarrow> u \<notin> set (invited_users w))
 \<and> (\<forall>v. count_list (invited_users w) v \<le> 1
      \<longrightarrow> count_list (invited_users (snd (invoke_auto_invite gw config tc w))) v \<le> 1)
 \<and> (success (gw w1 (Put_collaborator rp1 u1) (main_token cfg))
      \<or> str_in ''already a collaborator''
           (lower (get_error (gw w1 (Put_collaborator rp1 u1) (main_token cfg))))
    \<longrightarrow> invite_one gw cfg rp1 u1 cnt w1
          = (Ok (fst cnt + 1, snd cnt),
             sleep 1 (append_to_file Invited u1
               (snd (run_gh_api gw (Put_collaborator rp1 u1) (main_token cfg) w1))))
      \<and> (u1 \<notin> set (invited_users w1)
          \<longrightarrow> count_list (invited_users (snd (invite_one gw cfg rp1 u1 cnt w1))) u1 = 1))"
proof (intro conjI allI impI)
  fix rp u t r
  assume a: "Call (Put_collaborator rp u) t r
        \<in> set (new_events w (snd (invoke_auto_invite gw config tc w)))"
  have "all_new (\<lambda>e. \<forall>rp u t r. e = Call (Put_collaborator rp u) t r \<longrightarrow> u \<notin> set (invited_users w))
          w (snd (invoke_auto_invite gw config tc w))"
    by (rule invoke_auto_invite_new) simp_all
  from all_new_events [OF this a] show "u \<notin> set (invited_users w)" by simp
next
  fix v assume "count_list (invited_users w) v \<le> 1"
  then show "count_list (invited_users (snd (invoke_auto_invite gw config tc w))) v \<le> 1"
    by (rule invoke_auto_invite_count)
next
  assume a: "success (gw w1 (Put_collaborator rp1 u1) (main_token cfg))
      \<or> str_in ''already a collaborator''
           (lower (get_error (gw w1 (Put_collaborator rp1 u1) (main_token cfg))))"
  show "invite_one gw cfg rp1 u1 cnt w1
          = (Ok (fst cnt + 1, snd cnt),
             sleep 1 (append_to_file Invited u1
               (snd (run_gh_api gw (Put_collaborator rp1 u1) (main_token cfg) w1))))"
    using a by (intro invite_one_recorded [where r = "gw w1 (Put_collaborator rp1 u1) (main_token cfg)"]) simp_all
  then show "count_list (invited_users (snd (invite_one gw cfg rp1 u1 cnt w1))) u1 = 1"
    if "u1 \<notin> set (invited_users w1)" using that by simp
qed

theorem invite_flow_idempotent_witness:
  "Call (Put_collaborator ''main/repo'' ''alice'') ''tm'' resp_ok
     \<in> set (new_events (w0\<lparr>invited_users := [''bob'']\<rparr>)
          (snd (invoke_auto_invite gw_invite (Some cfg0) tc0 (w0\<lparr>invited_users := [''bob'']\<rparr>))))
 \<and> ''alice'' \<notin> set (invited_users (w0\<lparr>invited_users := [''bob'']\<rparr>))
 \<and> invited_users (snd (invoke_auto_invite gw_invite (Some cfg0) tc0
        (w0\<lparr>invited_users := [''bob'']\<rparr>))) = [''bob'', ''alice'', ''carol'']
 \<and> count_list (invited_users (snd (invoke_auto_invite gw_invite (Some cfg0) tc0
        (w0\<lparr>invited_users := [''bob'']\<rparr>)))) ''carol'' \<le> 1
 \<and> fst (invite_one gw_invite cfg0 ''main/repo'' ''carol'' (1, 0) w0) = Ok (2, 0)
 \<and> count_list (invited_users (snd (invite_one gw_invite cfg0 ''main/repo'' ''carol'' (1, 0) w0)))
      ''carol'' = 1"
proof -
  let ?w = "w0\<lparr>invited_users := [''bob'']\<rparr>"
  have run: "snd (invoke_auto_invite gw_invite (Some cfg0) tc0 ?w)
      = \<lparr>now = 2,
         trace = [Call (Put_collaborator ''main/repo'' ''alice'') ''tm'' resp_ok,
                  Append_line Invited ''alice'', Sleep 1,
                  Call (Put_collaborator ''main/repo'' ''carol'') ''tm''
                    (resp_fail ''already a collaborator''),
                  Append_line Invited ''carol'', Sleep 1],
         invited_users = [''bob'', ''alice'', ''carol''], accepted_users = [],
         forked_repos = []\<rparr>"
    by (simp add: invoke_auto_invite_def users_to_invite_def tc0_def cfg0_def w0_def
        read_file_lines_def invite_one_def run_gh_api_def gw_invite_def resp_ok_def
        resp_fail_def sleep_def append_to_file_def set_file_lines_def get_error_def
        lower_def lower_char_def Let_def)
  have mem: "Call (Put_collaborator ''main/repo'' ''alice'') ''tm'' resp_ok
     \<in> set (new_events ?w (snd (invoke_auto_invite gw_invite (Some cfg0) tc0 ?w)))"
    using run by (simp add: new_events_def w0_def)
  have cnt: "count_list (invited_users ?w) ''carol'' \<le> 1"
    by (simp add: w0_def)
  have hyp: "success (gw_invite w0 (Put_collaborator ''main/repo'' ''carol'') (main_token cfg0))
      \<or> str_in ''already a collaborator''
           (lower (get_error (gw_invite w0 (Put_collaborator ''main/repo'' ''carol'')
              (main_token cfg0))))"
    by (simp add: gw_invite_def resp_fail_def get_error_def lower_def lower_char_def)
  have fresh: "''carol'' \<notin> set (invited_users w0)"
    by (simp add: w0_def)
  from invite_flow_idempotent [where w = ?w and gw = gw_invite and config = "Some cfg0"
      and tc = tc0 and ?w1.0 = w0 and ?rp1.0 = "''main/repo''" and ?u1.0 = "''carol''"
      and cfg = cfg0 and cnt = "(1, 0)"] mem cnt hyp fresh run
  show ?thesis by simp
qed

subsection \<open>The events of the accept flow\<close>

lemma accept_loop_inv:
  assumes "\<And>tu cnt w. tu \<in> set tc \<Longrightarrow> I w \<Longrightarrow> I (snd (accept_one gw jl tr acc tu cnt w))"
    and "I w"
  shows "I (snd (accept_loop gw jl tr acc tc cnt w))"
  using assms
proof (induction tc arbitrary: cnt w)
  case Nil
  then show ?case by simp
next
  case (Cons tu tc)
  have one: "I (snd (accept_one gw jl tr acc tu cnt w))"
    using Cons.prems by simp
  show ?case
  proof (cases "accept_one gw jl tr acc tu cnt w")
    case (Pair r w1)
    show ?thesis
    proof (cases r)
      case (Raise e)
      with Pair one show ?thesis by simp
    next
      case (Ok cnt1)
      have "I (snd (accept_loop gw jl tr acc tc cnt1 w1))"
        using Cons.prems one Pair by (intro Cons.IH) simp_all
      with Pair Ok show ?thesis by simp
    qed
  qed
qed

lemma accept_body_new:
  assumes "\<And>c r. P (Call c t r)" and "P (Append_line Accepted u)" and "\<And>m. P (Print_error m)"
  shows "all_new P w (snd (accept_body gw jl tr t u result cnt w))"
  using assms
  by (auto simp: accept_body_def all_new_def split_def Let_def
      split: option.splits res.splits prod.splits)

lemma accept_body_files:
  "invited_users (snd (accept_body gw jl tr t u result cnt w)) = invited_users w"
  "forked_repos (snd (accept_body gw jl tr t u result cnt w)) = forked_repos w"
  "now (snd (accept_body gw jl tr t u result cnt w)) \<ge> now w"
  "\<exists>ys. accepted_users (snd (accept_body gw jl tr t u result cnt w)) = accepted_users w @ ys
        \<and> set ys \<subseteq> {u}"
  by (auto simp: accept_body_def split_def Let_def
      split: option.splits res.splits prod.splits)

lemma accept_one_skip:
  "u \<in> set acc \<Longrightarrow>
   accept_one gw jl tr acc (t, u) cnt w = (Ok (fst cnt, fst (snd cnt) + 1, snd (snd cnt)), w)"
  by (simp add: accept_one_def split_def)

lemma accept_one_new:
  assumes "snd tu \<notin> set acc \<Longrightarrow> (\<And>c r. P (Call c (fst tu) r))"
    and "snd tu \<notin> set acc \<Longrightarrow> P (Append_line Accepted (snd tu))"
    and "\<And>m. P (Print_error m)" and "\<And>n. P (Sleep n)"
  shows "all_new P w (snd (accept_one gw jl tr acc tu cnt w))"
proof (cases "snd tu \<in> set acc")
  case True
  then show ?thesis by (simp add: accept_one_def split_def)
next
  case False
  let ?r = "gw w List_invitations (fst tu)"
  let ?w1 = "snd (run_gh_api gw List_invitations (fst tu) w)"
  let ?b = "accept_body gw jl tr (fst tu) (snd tu) ?r cnt ?w1"
  have 1: "all_new P w ?w1"
    by (rule all_new_run_gh_api) (simp_all add: assms False)
  have "all_new P ?w1 (snd ?b)"
    by (rule accept_body_new) (simp_all add: assms False)
  with 1 have 2: "all_new P w (snd ?b)" by (rule all_new_trans)
  have eq: "snd (accept_one gw jl tr acc tu cnt w)
      = (if \<not> success ?r then print_error Err_fetch_invitations ?w1
         else case fst ?b of
                Ok cnt1 \<Rightarrow> sleep 1 (snd ?b)
              | Raise e \<Rightarrow> if e = JSONDecodeError \<or> e = KeyError
                           then sleep 1 (print_error Err_parse_json (snd ?b)) else snd ?b)"
    using False by (simp add: accept_one_def split_def Let_def split: res.splits)
  show ?thesis
    unfolding eq using 1 2
    by (auto split: res.splits intro!: all_new_sleep all_new_print_error assms)
qed

lemma accept_one_files:
  "invited_users (snd (accept_one gw jl tr acc tu cnt w)) = invited_users w"
  "forked_repos (snd (accept_one gw jl tr acc tu cnt w)) = forked_repos w"
  "\<exists>ys. accepted_users (snd (accept_one gw jl tr acc tu cnt w)) = accepted_users w @ ys
        \<and> set ys \<subseteq> {snd tu} - set acc"
proof -
  let ?r = "gw w List_invitations (fst tu)"
  let ?w1 = "snd (run_gh_api gw List_invitations (fst tu) w)"
  let ?b = "accept_body gw jl tr (fst tu) (snd tu) ?r cnt ?w1"
  have eq: "snd (accept_one gw jl tr acc tu cnt w)
      = (if snd tu \<in> set acc then w
         else if \<not> success ?r then print_error Err_fetch_invitations ?w1
         else case fst ?b of
                Ok cnt1 \<Rightarrow> sleep 1 (snd ?b)
              | Raise e \<Rightarrow> if e = JSONDecodeError \<or> e = KeyError
                           then sleep 1 (print_error Err_parse_json (snd ?b)) else snd ?b)"
    by (simp add: accept_one_def split_def Let_def split: res.splits)
  show "invited_users (snd (accept_one gw jl tr acc tu cnt w)) = invited_users w"
    unfolding eq by (simp add: accept_body_files split: res.splits)
  show "forked_repos (snd (accept_one gw jl tr acc tu cnt w)) = forked_repos w"
    unfolding eq by (simp add: accept_body_files split: res.splits)
  from accept_body_files(4) [of gw jl tr "fst tu" "snd tu" ?r cnt ?w1]
  obtain ys where ys: "accepted_users (snd ?b) = accepted_users w @ ys" "set ys \<subseteq> {snd tu}"
    by auto
  show "\<exists>ys. accepted_users (snd (accept_one gw jl tr acc tu cnt w)) = accepted_users w @ ys
        \<and> set ys \<subseteq> {snd tu} - set acc"
    unfolding eq using ys by (auto split: res.splits)
qed

lemma accept_one_skipped_count:
  "fst (accept_one gw jl tr acc tu cnt w) = Ok cnt1
   \<Longrightarrow> fst (snd cnt1) = fst (snd cnt) + (if snd tu \<in> set acc then 1 else 0)"
  by (auto simp: accept_one_def accept_body_def split_def Let_def
      split: res.splits option.splits if_splits)


lemma accept_loop_new:
  assumes "\<And>tu c r. tu \<in> set tc \<Longrightarrow> snd tu \<notin> set acc \<Longrightarrow> P (Call c (fst tu) r)"
    and "\<And>tu. tu \<in> set tc \<Longrightarrow> snd tu \<notin> set acc \<Longrightarrow> P (Append_line Accepted (snd tu))"
    and "\<And>m. P (Print_error m)" and "\<And>n. P (Sleep n)"
  shows "all_new P w (snd (accept_loop gw jl tr acc tc cnt w))"
proof (rule accept_loop_inv [where I = "all_new P w"])
  fix tu cnt' w'
  assume tu: "tu \<in> set tc" and w': "all_new P w w'"
  have "all_new P w' (snd (accept_one gw jl tr acc tu cnt' w'))"
    by (rule accept_one_new) (simp_all add: assms tu)
  with w' show "all_new P w (snd (accept_one gw jl tr acc tu cnt' w'))"
    by (rule all_new_trans)
qed simp

lemma accept_loop_files:
  "invited_users (snd (accept_loop gw jl tr acc tc cnt w)) = invited_users w
   \<and> forked_repos (snd (accept_loop gw jl tr acc tc cnt w)) = forked_repos w
   \<and> (\<exists>ys. accepted_users (snd (accept_loop gw jl tr acc tc cnt w)) = accepted_users w @ ys
          \<and> set ys \<subseteq> snd ` set tc - set acc)"
proof (rule accept_loop_inv [where I = "\<lambda>w'. invited_users w' = invited_users w
   \<and> forked_repos w' = forked_repos w
   \<and> (\<exists>ys. accepted_users w' = accepted_users w @ ys \<and> set ys \<subseteq> snd ` set tc - set acc)"])
  fix tu cnt' and w' :: world
  assume tu: "tu \<in> set tc"
    and I: "invited_users w' = invited_users w \<and> forked_repos w' = forked_repos w
      \<and> (\<exists>ys. accepted_users w' = accepted_users w @ ys \<and> set ys \<subseteq> snd ` set tc - set acc)"
  then obtain ys where ys: "accepted_users w' = accepted_users w @ ys"
      "set ys \<subseteq> snd ` set tc - set acc" by blast
  from accept_one_files(3) [of gw jl tr acc tu cnt' w'] obtain zs where
    zs: "accepted_users (snd (accept_one gw jl tr acc tu cnt' w')) = accepted_users w' @ zs"
      "set zs \<subseteq> {snd tu} - set acc" by blast
  have "accepted_users (snd (accept_one gw jl tr acc tu cnt' w')) = accepted_users w @ (ys @ zs)"
    using ys zs by simp
  moreover have "set (ys @ zs) \<subseteq> snd ` set tc - set acc"
    using ys zs tu by auto
  ultimately show "invited_users (snd (accept_one gw jl tr acc tu cnt' w')) = invited_users w
   \<and> forked_repos (snd (accept_one gw jl tr acc tu cnt' w')) = forked_repos w
   \<and> (\<exists>ys. accepted_users (snd (accept_one gw jl tr acc tu cnt' w')) = accepted_users w @ ys
          \<and> set ys \<subseteq> snd ` set tc - set acc)"
    using I by (simp only: accept_one_files(1,2)) blast
qed simp

lemma accept_loop_skipped_count:
  "fst (accept_loop gw jl tr acc tc cnt w) = Ok cnt1
   \<Longrightarrow> fst (snd cnt1) = fst (snd cnt) + length (filter (\<lambda>tu. snd tu \<in> set acc) tc)"
proof (induction tc arbitrary: cnt w)
  case Nil
  then show ?case by simp
next
  case (Cons tu tc)
  show ?case
  proof (cases "accept_one gw jl tr acc tu cnt w")
    case (Pair r w1)
    show ?thesis
    proof (cases r)
      case (Raise e)
      with Pair Cons.prems show ?thesis by simp
    next
      case (Ok cnt2)
      with Pair Cons.prems have "fst (accept_loop gw jl tr acc tc cnt2 w1) = Ok cnt1" by simp
      from Cons.IH [OF this] accept_one_skipped_count [of gw jl tr acc tu cnt w cnt2] Pair Ok
      show ?thesis by simp
    qed
  qed
qed

lemma invoke_auto_accept_inv:
  assumes "I (print_error Err_config_or_cache_missing w)"
    and "\<And>tr. I (snd (accept_loop gw jl tr (accepted_users w) tc (0, 0, 0) w))"
  shows "I (snd (invoke_auto_accept gw jl config tc w))"
  using assms
  by (cases config)
     (auto simp: invoke_auto_accept_def Let_def read_file_lines_def split_def split: res.splits)

lemma invoke_auto_accept_counts:
  "fst (invoke_auto_accept gw jl config tc w) = Ok (Some cnt)
   \<Longrightarrow> \<exists>tr. fst (accept_loop gw jl tr (accepted_users w) tc (0, 0, 0) w) = Ok cnt"
  by (cases config)
     (auto simp: invoke_auto_accept_def Let_def read_file_lines_def split_def
       split: res.splits if_splits)

subsection \<open>Accounts that have accepted already\<close>

text \<open>
  Claim C10. For an account of the token cache that is in the accepted checklist when
  the accept flow starts (the token cache is a dict, so its tokens are distinct), a run
  of the flow issues no gateway call with that account's token, appends the account to
  no checklist and rewrites none; the invited and forked checklists are as before, the
  accepted checklist keeps all its entries and gains none for the account. The pass of
  the loop for that account only adds one to the counter of skipped accounts, and in
  the closing report that counter is the number of accounts found in the checklist.
\<close>

theorem accepted_accounts_are_skipped:
  assumes "(t0, u0) \<in> set tc" and "u0 \<in> set (accepted_users w)" and "distinct (map fst tc)"
    and "w' = snd (invoke_auto_accept gw jl config tc w)"
  shows "(\<forall>c r. Call c t0 r \<notin> set (new_events w w'))
       \<and> (\<forall>f. Append_line f u0 \<notin> set (new_events w w'))
       \<and> (\<forall>f ls. Write_lines f ls \<notin> set (new_events w w'))
       \<and> invited_users w' = invited_users w
       \<and> forked_repos w' = forked_repos w
       \<and> (\<exists>ys. accepted_users w' = accepted_users w @ ys \<and> u0 \<notin> set ys)
       \<and> accept_one gw jl tr (accepted_users w) (t0, u0) cnt w1
           = (Ok (fst cnt, fst (snd cnt) + 1, snd (snd cnt)), w1)
       \<and> (\<forall>a s n. fst (invoke_auto_accept gw jl config tc w) = Ok (Some (a, s, n))
            \<longrightarrow> s = length (filter (\<lambda>tu. snd tu \<in> set (accepted_users w)) tc))"
proof -
  let ?P = "\<lambda>e. (\<forall>c r. e \<noteq> Call c t0 r) \<and> (\<forall>f. e \<noteq> Append_line f u0)
                \<and> (\<forall>f ls. e \<noteq> Write_lines f ls)"
  have other: "fst tu \<noteq> t0 \<and> snd tu \<noteq> u0"
    if "tu \<in> set tc" "snd tu \<notin> set (accepted_users w)" for tu
  proof -
    have "snd tu = u0" if "fst tu = t0"
      using eq_key_imp_eq_value [OF assms(3), of t0 "snd tu" u0] that \<open>tu \<in> set tc\<close> assms(1)
      by (cases tu) auto
    with that(2) assms(2) show ?thesis by auto
  qed
  have new: "all_new ?P w w'"
    unfolding assms(4)
  proof (rule invoke_auto_accept_inv)
    show "all_new ?P w (print_error Err_config_or_cache_missing w)"
      by (rule all_new_print_error) simp_all
    show "all_new ?P w (snd (accept_loop gw jl tr' (accepted_users w) tc (0, 0, 0) w))" for tr'
      by (rule accept_loop_new) (auto dest: other)
  qed
  have files: "invited_users w' = invited_users w \<and> forked_repos w' = forked_repos w
       \<and> (\<exists>ys. accepted_users w' = accepted_users w @ ys \<and> u0 \<notin> set ys)"
    unfolding assms(4)
  proof (rule invoke_auto_accept_inv)
    show "invited_users (print_error Err_config_or_cache_missing w) = invited_users w
       \<and> forked_repos (print_error Err_config_or_cache_missing w) = forked_repos w
       \<and> (\<exists>ys. accepted_users (print_error Err_config_or_cache_missing w) = accepted_users w @ ys
             \<and> u0 \<notin> set ys)"
      by simp
    show "invited_users (snd (accept_loop gw jl tr' (accepted_users w) tc (0, 0, 0) w)) = invited_users w
       \<and> forked_repos (snd (accept_loop gw jl tr' (accepted_users w) tc (0, 0, 0) w)) = forked_repos w
       \<and> (\<exists>ys. accepted_users (snd (accept_loop gw jl tr' (accepted_users w) tc (0, 0, 0) w))
                 = accepted_users w @ ys \<and> u0 \<notin> set ys)" for tr'
      using accept_loop_files [of gw jl tr' "accepted_users w" tc "(0, 0, 0)" w] assms(2)
      by blast
  qed
  have count: "s = length (filter (\<lambda>tu. snd tu \<in> set (accepted_users w)) tc)"
    if "fst (invoke_auto_accept gw jl config tc w) = Ok (Some (a, s, n))" for a s n
  proof -
    from invoke_auto_accept_counts [OF that] obtain tr' where
      "fst (accept_loop gw jl tr' (accepted_users w) tc (0, 0, 0) w) = Ok (a, s, n)" by blast
    from accept_loop_skipped_count [OF this] show ?thesis by simp
  qed
  have ev: "(\<forall>c r. Call c t0 r \<notin> set (new_events w w'))
       \<and> (\<forall>f. Append_line f u0 \<notin> set (new_events w w'))
       \<and> (\<forall>f ls. Write_lines f ls \<notin> set (new_events w w'))"
    using all_new_events [OF new] by blast
  have skip: "accept_one gw jl tr (accepted_users w) (t0, u0) cnt w1
           = (Ok (fst cnt, fst (snd cnt) + 1, snd (snd cnt)), w1)"
    using assms(2) by (rule accept_one_skip)
  have cnt: "\<forall>a s n. fst (invoke_auto_accept gw jl config tc w) = Ok (Some (a, s, n))
            \<longrightarrow> s = length (filter (\<lambda>tu. snd tu \<in> set (accepted_users w)) tc)"
    using count by blast
  from ev files skip cnt show ?thesis by (intro conjI) (elim conjE, assumption)+
qed

theorem accepted_accounts_are_skipped_witness:
  "Call List_invitations ''ta'' (resp_out ''list'')
     \<notin> set (new_events (w0\<lparr>accepted_users := [''alice'']\<rparr>)
          (snd (invoke_auto_accept gw_accept jl0 (Some cfg0) tc0
                 (w0\<lparr>accepted_users := [''alice'']\<rparr>))))
 \<and> accepted_users (snd (invoke_auto_accept gw_accept jl0 (Some cfg0) tc0
        (w0\<lparr>accepted_users := [''alice'']\<rparr>))) = [''alice'', ''main'', ''carol'']
 \<and> fst (invoke_auto_accept gw_accept jl0 (Some cfg0) tc0 (w0\<lparr>accepted_users := [''alice'']\<rparr>))
      = Ok (Some (2, 1, 0))"
proof -
  let ?w = "w0\<lparr>accepted_users := [''alice'']\<rparr>"
  have run: "invoke_auto_accept gw_accept jl0 (Some cfg0) tc0 ?w
      = (Ok (Some (2, 1, 0)),
         \<lparr>now = 3,
          trace = [Call List_invitations ''tm'' (resp_out ''list''),
                   Call (Accept_invitation (JNum 7)) ''tm'' resp_ok,
                   Append_line Accepted ''main'', Sleep 1,
                   Call List_invitations ''tb'' (resp_out ''bad''),
                   Print_error Err_parse_json, Sleep 1,
                   Call List_invitations ''tc'' (resp_out ''list''),
                   Call (Accept_invitation (JNum 7)) ''tc'' resp_ok,
                   Append_line Accepted ''carol'', Sleep 1],
          invited_users = [], accepted_users = [''alice'', ''main'', ''carol''],
          forked_repos = []\<rparr>)"
    by (simp add: invoke_auto_accept_def tc0_def cfg0_def w0_def read_file_lines_def
        accept_one_def accept_body_def run_gh_api_def gw_accept_def jl0_def resp_out_def
        resp_ok_def sleep_def print_error_def append_to_file_def set_file_lines_def
        bind_res_def inv_matches_def lower_def lower_char_def Let_def)
  have 1: "(''ta'', ''alice'') \<in> set tc0" by (simp add: tc0_def)
  have 2: "''alice'' \<in> set (accepted_users ?w)" by simp
  have 3: "distinct (map fst tc0)" by (simp add: tc0_def)
  from accepted_accounts_are_skipped [OF 1 2 3 refl, of gw_accept jl0 "Some cfg0"]
  have "Call List_invitations ''ta'' (resp_out ''list'')
     \<notin> set (new_events ?w (snd (invoke_auto_accept gw_accept jl0 (Some cfg0) tc0 ?w)))"
    by blast
  then show ?thesis by (simp add: run)
qed

subsection \<open>A listing that does not parse\<close>

text \<open>
  Claim C8. When the listing of an account that is not in the accepted checklist was
  fetched and \<open>json.loads\<close> raises on it, the pass of the loop for that account
  consists of the listing call, the error line and the pacing sleep: no accept call, no
  change of any checklist, no exception and the counters as they were (the counter of
  accounts without invitation is not raised either); the loop goes on with the next
  account.
\<close>

theorem malformed_listing_is_passed_over:
  assumes "u \<notin> set acc"
    and "r = gw w List_invitations t"
    and "success r"
    and "jl (output_text r) = None"
    and "w1 = sleep 1 (print_error Err_parse_json (snd (run_gh_api gw List_invitations t w)))"
  shows "accept_one gw jl tr acc (t, u) cnt w = (Ok cnt, w1)
       \<and> accept_loop gw jl tr acc ((t, u) # rest) cnt w = accept_loop gw jl tr acc rest cnt w1
       \<and> new_events w w1 = [Call List_invitations t r, Print_error Err_parse_json, Sleep 1]
       \<and> accepted_users w1 = accepted_users w
       \<and> invited_users w1 = invited_users w
       \<and> forked_repos w1 = forked_repos w"
proof -
  have one: "accept_one gw jl tr acc (t, u) cnt w = (Ok cnt, w1)"
    using assms by (simp add: accept_one_def accept_body_def split_def Let_def)
  then show ?thesis using assms(2,5) by simp
qed

theorem malformed_listing_is_passed_over_witness:
  "fst (accept_one gw_accept jl0 ''main/repo'' [''alice''] (''tb'', ''bob'') (1, 1, 0) w0)
     = Ok (1, 1, 0)
 \<and> accept_loop gw_accept jl0 ''main/repo'' [''alice''] [(''tb'', ''bob''), (''tc'', ''carol'')]
      (1, 1, 0) w0
     = (Ok (2, 1, 0),
        \<lparr>now = 2,
         trace = [Call List_invitations ''tb'' (resp_out ''bad''),
                  Print_error Err_parse_json, Sleep 1,
                  Call List_invitations ''tc'' (resp_out ''list''),
                  Call (Accept_invitation (JNum 7)) ''tc'' resp_ok,
                  Append_line Accepted ''carol'', Sleep 1],
         invited_users = [], accepted_users = [''carol''], forked_repos = []\<rparr>)"
proof -
  have 1: "''bob'' \<notin> set [''alice'']" by simp
  have 3: "success (gw_accept w0 List_invitations ''tb'')"
    by (simp add: gw_accept_def resp_out_def resp_ok_def)
  have 4: "jl0 (output_text (gw_accept w0 List_invitations ''tb'')) = None"
    by (simp add: gw_accept_def resp_out_def resp_ok_def jl0_def)
  from malformed_listing_is_passed_over [where gw = gw_accept and jl = jl0 and w = w0
      and t = "''tb''" and u = "''bob''" and acc = "[''alice'']" and tr = "''main/repo''"
      and cnt = "(1, 1, 0)" and rest = "[(''tc'', ''carol'')]", OF 1 refl 3 4 refl]
  show ?thesis
    by (simp add: w0_def accept_one_def accept_body_def run_gh_api_def gw_accept_def
        jl0_def resp_out_def resp_ok_def sleep_def print_error_def append_to_file_def
        set_file_lines_def read_file_lines_def bind_res_def inv_matches_def lower_def
        lower_char_def Let_def)
qed


subsection \<open>The readiness poll\<close>

declare poll_fork.simps [simp del]

lemma poll_fork_stop:
  "\<not> int (now w) - int st < 120 \<Longrightarrow> poll_fork gw p t st w = (False, w)"
  by (simp add: poll_fork.simps [of gw p t st w])

lemma poll_fork_ready:
  "int (now w) - int st < 120 \<Longrightarrow> success (gw w (Get_repo p) t)
   \<Longrightarrow> poll_fork gw p t st w = (True, snd (run_gh_api gw (Get_repo p) t w))"
  by (simp add: poll_fork.simps [of gw p t st w] split_def Let_def)

lemma poll_fork_retry:
  "int (now w) - int st < 120 \<Longrightarrow> \<not> success (gw w (Get_repo p) t)
   \<Longrightarrow> poll_fork gw p t st w
       = poll_fork gw p t st (sleep 5 (snd (run_gh_api gw (Get_repo p) t w)))"
  by (simp add: poll_fork.simps [of gw p t st w] split_def Let_def)

lemma poll_fork_cases [case_names stop ready retry]:
  assumes "\<And>w. \<not> int (now w) - int st < 120 \<Longrightarrow> P w"
    and "\<And>w. int (now w) - int st < 120 \<Longrightarrow> success (gw w (Get_repo p) t) \<Longrightarrow> P w"
    and "\<And>w. int (now w) - int st < 120 \<Longrightarrow> \<not> success (gw w (Get_repo p) t)
           \<Longrightarrow> P (sleep 5 (snd (run_gh_api gw (Get_repo p) t w))) \<Longrightarrow> P w"
  shows "P w"
  using assms
proof (induction gw p t st w rule: poll_fork.induct)
  case (1 gw p t st w)
  show ?case
  proof (cases "int (now w) - int st < 120")
    case False
    then show ?thesis by (rule "1.prems"(1))
  next
    case True
    show ?thesis
    proof (cases "success (gw w (Get_repo p) t)")
      case s: True
      with True show ?thesis by (rule "1.prems"(2))
    next
      case f: False
      have "P (sleep 5 (snd (run_gh_api gw (Get_repo p) t w)))"
        using "1.IH" [OF True refl prod.collapse _ "1.prems"] f by simp
      with True f show ?thesis by (rule "1.prems"(3))
    qed
  qed
qed

lemma poll_fork_trace:
  "\<exists>rs. (\<forall>r \<in> set rs. \<not> success r)
      \<and> (if fst (poll_fork gw p t st w)
         then \<exists>r. success r
                \<and> trace (snd (poll_fork gw p t st w))
                    = trace w @ failed_probes p t rs @ [Call (Get_repo p) t r]
         else trace (snd (poll_fork gw p t st w)) = trace w @ failed_probes p t rs)"
proof (induction w rule: poll_fork_cases [where gw = gw and p = p and t = t and st = st])
  case (stop w)
  then show ?case
    by (auto simp: poll_fork_stop failed_probes_def intro: exI [of _ "[]"])
next
  case (ready w)
  then show ?case
    by (auto simp: poll_fork_ready failed_probes_def intro!: exI [of _ "[]"])
next
  case (retry w)
  let ?r = "gw w (Get_repo p) t"
  from retry(3) obtain rs where
    rs: "\<forall>r \<in> set rs. \<not> success r"
      "if fst (poll_fork gw p t st w)
       then \<exists>r. success r
              \<and> trace (snd (poll_fork gw p t st w))
                  = trace w @ [Call (Get_repo p) t ?r, Sleep 5] @ failed_probes p t rs
                      @ [Call (Get_repo p) t r]
       else trace (snd (poll_fork gw p t st w))
              = trace w @ [Call (Get_repo p) t ?r, Sleep 5] @ failed_probes p t rs"
    unfolding poll_fork_retry [where gw = gw and p = p and t = t and st = st and w = w, OF retry(1,2)]
    by (auto split: if_splits)
  show ?case
    using rs retry(2)
    by (intro exI [of _ "?r # rs"]) (auto simp: failed_probes_def split: if_splits)
qed

lemma poll_fork_files:
  "invited_users (snd (poll_fork gw p t st w)) = invited_users w
   \<and> accepted_users (snd (poll_fork gw p t st w)) = accepted_users w
   \<and> forked_repos (snd (poll_fork gw p t st w)) = forked_repos w
   \<and> now w \<le> now (snd (poll_fork gw p t st w))"
proof (induction w rule: poll_fork_cases [where gw = gw and p = p and t = t and st = st])
  case (stop w)
  then show ?case by (simp add: poll_fork_stop)
next
  case (ready w)
  then show ?case by (simp add: poll_fork_ready)
next
  case (retry w)
  then show ?case by (simp add: poll_fork_retry)
qed

lemma poll_fork_gives_up:
  "\<not> fst (poll_fork gw p t st w) \<Longrightarrow> st + 120 \<le> now (snd (poll_fork gw p t st w))"
proof (induction w rule: poll_fork_cases [where gw = gw and p = p and t = t and st = st])
  case (stop w)
  then show ?case by (simp add: poll_fork_stop)
next
  case (ready w)
  then show ?case by (simp add: poll_fork_ready)
next
  case (retry w)
  then show ?case by (simp add: poll_fork_retry)
qed

lemma poll_fork_bound:
  assumes "\<And>w. elapsed (gw w (Get_repo p) t) \<le> d"
  shows "now (snd (poll_fork gw p t st w)) \<le> max (now w) (st + 124 + d)"
proof (induction w rule: poll_fork_cases [where gw = gw and p = p and t = t and st = st])
  case (stop w)
  then show ?case by (simp add: poll_fork_stop)
next
  case (ready w)
  with assms [of w] show ?case by (simp add: poll_fork_ready)
next
  case (retry w)
  with assms [of w] show ?case by (simp add: poll_fork_retry)
qed

lemma poll_fork_bound_instant:
  assumes "\<And>w. elapsed (gw w (Get_repo p) t) = 0"
    and "st \<le> now w" and "5 dvd (now w - st)"
  shows "now (snd (poll_fork gw p t st w)) \<le> max (now w) (st + 120)"
  using assms(2,3)
proof (induction w rule: poll_fork_cases [where gw = gw and p = p and t = t and st = st])
  case (stop w)
  then show ?case by (simp add: poll_fork_stop)
next
  case (ready w)
  with assms(1) [of w] show ?case by (simp add: poll_fork_ready)
next
  case (retry w)
  have "5 dvd (now w + 5 - st)" using retry(4,5) by presburger
  moreover have "now w + 5 \<le> st + 120" using retry(1,4,5) by presburger
  ultimately show ?case
    using retry assms(1) [of w] by (simp add: poll_fork_retry)
qed

lemma gw_slow_run:
  "now (snd (poll_fork gw_slow ''bob/repo'' ''tb'' (now w0) w0)) = 130"
  by (simp add: poll_fork_stop poll_fork_retry gw_slow_def w0_def)


lemma poll_fork_new:
  assumes "\<And>r. P (Call (Get_repo p) t r)" and "P (Sleep 5)"
  shows "all_new P w (snd (poll_fork gw p t st w))"
proof (induction w rule: poll_fork_cases [where gw = gw and p = p and t = t and st = st])
  case (stop w)
  then show ?case by (simp add: poll_fork_stop)
next
  case (ready w)
  then show ?case
    by (simp add: poll_fork_ready all_new_run_gh_api assms)
next
  case (retry w)
  have "all_new P w (sleep 5 (snd (run_gh_api gw (Get_repo p) t w)))"
    by (intro all_new_sleep all_new_run_gh_api all_new_refl assms)
  with retry show ?case
    by (auto simp: poll_fork_retry intro: all_new_trans)
qed

text \<open>
  Claim C2, as amended. The poll that \<open>create_new_fork\<close> starts at clock value
  \<open>now w\<close> is a run of failed probes, each followed by a sleep of exactly 5 time
  units, ended either by a successful probe (and only then is the fork reported ready)
  or by the clock reaching 120 units past the start at the head of a pass. It gives up
  only once 120 units have passed. It starts no probe after that, so it is over within
  120 units plus one probe and one sleep: at most \<open>120 + d + 5\<close> units when a probe
  takes at most \<open>d\<close>, and at most 120 when probes take no time. When it gives up after
  an accepted creation request, \<open>create_new_fork\<close> returns \<open>False\<close> and its last
  act is the error line of the timeout.
\<close>

theorem readiness_poll_bounded:
  assumes "poll_fork gw p t (now w) w = (ready, w')"
  shows "(\<exists>rs. (\<forall>r \<in> set rs. \<not> success r)
           \<and> (if ready
              then \<exists>r. success r
                     \<and> new_events w w' = failed_probes p t rs @ [Call (Get_repo p) t r]
              else new_events w w' = failed_probes p t rs))
       \<and> (\<not> ready \<longrightarrow> now w + 120 \<le> now w')
       \<and> ((\<forall>v. elapsed (gw v (Get_repo p) t) \<le> d) \<longrightarrow> now w' \<le> now w + 120 + d + 5)
       \<and> ((\<forall>v. elapsed (gw v (Get_repo p) t) = 0) \<longrightarrow> now w' \<le> now w + 120)
       \<and> (split_on CHR ''/'' src = owner # name # others
            \<and> p = u @ ''/'' @ name
            \<and> w = snd (run_gh_api gw (Create_fork src) t (remove_stale_entry u v0))
            \<and> (success (gw (remove_stale_entry u v0) (Create_fork src) t)
                \<or> str_in ''forks must have unique names''
                     (lower (get_error (gw (remove_stale_entry u v0) (Create_fork src) t))))
            \<and> \<not> ready
          \<longrightarrow> create_new_fork gw u t src v0 = (Ok False, print_error Err_timeout w'))"
proof (intro conjI impI)
  from poll_fork_trace [of gw p t "now w" w] assms
  show "\<exists>rs. (\<forall>r \<in> set rs. \<not> success r)
           \<and> (if ready
              then \<exists>r. success r
                     \<and> new_events w w' = failed_probes p t rs @ [Call (Get_repo p) t r]
              else new_events w w' = failed_probes p t rs)"
    by (auto split: if_splits)
next
  assume "\<not> ready"
  with poll_fork_gives_up [of gw p t "now w" w] assms show "now w + 120 \<le> now w'"
    by simp
next
  assume "\<forall>v. elapsed (gw v (Get_repo p) t) \<le> d"
  then have "now (snd (poll_fork gw p t (now w) w)) \<le> max (now w) (now w + 124 + d)"
    by (intro poll_fork_bound) simp
  with assms show "now w' \<le> now w + 120 + d + 5" by simp
next
  assume "\<forall>v. elapsed (gw v (Get_repo p) t) = 0"
  then have "now (snd (poll_fork gw p t (now w) w)) \<le> max (now w) (now w + 120)"
    by (intro poll_fork_bound_instant) simp_all
  with assms show "now w' \<le> now w + 120" by simp
next
  assume a: "split_on CHR ''/'' src = owner # name # others
            \<and> p = u @ ''/'' @ name
            \<and> w = snd (run_gh_api gw (Create_fork src) t (remove_stale_entry u v0))
            \<and> (success (gw (remove_stale_entry u v0) (Create_fork src) t)
                \<or> str_in ''forks must have unique names''
                     (lower (get_error (gw (remove_stale_entry u v0) (Create_fork src) t))))
            \<and> \<not> ready"
  then have p: "p = u @ ''/'' @ name"
    and w: "w = snd (run_gh_api gw (Create_fork src) t (remove_stale_entry u v0))" by simp_all
  from a assms [unfolded p w]
  show "create_new_fork gw u t src v0 = (Ok False, print_error Err_timeout w')"
    by (auto simp: create_new_fork_def split_def Let_def)
qed

theorem readiness_poll_bounded_witness:
  "\<not> fst (poll_fork gw_slow ''bob/repo'' ''tb'' (now w0) w0)
   \<and> now w0 + 120 \<le> now (snd (poll_fork gw_slow ''bob/repo'' ''tb'' (now w0) w0))
   \<and> now (snd (poll_fork gw_slow ''bob/repo'' ''tb'' (now w0) w0)) \<le> now w0 + 120 + 8 + 5"
proof -
  have gives_up: "\<not> fst (poll_fork gw_slow ''bob/repo'' ''tb'' (now w0) w0)"
    by (simp add: poll_fork_stop poll_fork_retry gw_slow_def w0_def)
  have slow: "\<forall>v. elapsed (gw_slow v (Get_repo ''bob/repo'') ''tb'') \<le> 8"
    by (simp add: gw_slow_def)
  obtain ready w' where run: "poll_fork gw_slow ''bob/repo'' ''tb'' (now w0) w0 = (ready, w')"
    by (cases "poll_fork gw_slow ''bob/repo'' ''tb'' (now w0) w0")
  from gives_up run have "\<not> ready" by simp
  with readiness_poll_bounded [OF run, where d = 8] slow
  have "now w0 + 120 \<le> now w' \<and> now w' \<le> now w0 + 120 + 8 + 5"
    by blast
  with run \<open>\<not> ready\<close> show ?thesis by simp
qed

text \<open>
  Claim C2 as stated fails where a probe takes time: with probes of 8 time units the
  passes start at 0, 13, ..., 117 and the poll returns at 130, later than the timeout
  of 120.
\<close>

theorem readiness_poll_overrun_counterexample:
  "(\<forall>v. elapsed (gw_slow v (Get_repo ''bob/repo'') ''tb'') = 8)
   \<and> now (snd (poll_fork gw_slow ''bob/repo'' ''tb'' (now w0) w0)) - now w0 = 130
   \<and> \<not> (130 \<le> (120 :: nat))"
  by (simp add: poll_fork_stop poll_fork_retry gw_slow_def w0_def)


subsection \<open>The fork lifecycle, function by function\<close>

lemma filter_absent: "u \<notin> set xs \<Longrightarrow> filter (\<lambda>l. l \<noteq> u) xs = xs"
  by (induction xs) auto

lemma remove_stale_entry_fields [simp]:
  "trace (remove_stale_entry u w)
     = trace w @ (if u \<in> set (forked_repos w)
                  then [Write_lines Forked (filter (\<lambda>l. l \<noteq> u) (forked_repos w))] else [])"
  "forked_repos (remove_stale_entry u w) = filter (\<lambda>l. l \<noteq> u) (forked_repos w)"
  "invited_users (remove_stale_entry u w) = invited_users w"
  "accepted_users (remove_stale_entry u w) = accepted_users w"
  "now (remove_stale_entry u w) = now w"
  by (auto simp: remove_stale_entry_def read_file_lines_def Let_def filter_absent)

lemma remove_stale_entry_new:
  "(\<And>ls. u \<notin> set ls \<Longrightarrow> P (Write_lines Forked ls)) \<Longrightarrow> all_new P w (remove_stale_entry u w)"
  by (auto simp: all_new_def)

lemma check_if_correct_fork_fields [simp]:
  "fst (check_if_correct_fork gw p t ex w)
     \<longleftrightarrow> success (gw w (Get_parent p) t)
         \<and> lower (strip_quotes (strip (output_text (gw w (Get_parent p) t)))) = lower ex"
  "trace (snd (check_if_correct_fork gw p t ex w))
     = trace w @ [Call (Get_parent p) t (gw w (Get_parent p) t)]"
  "invited_users (snd (check_if_correct_fork gw p t ex w)) = invited_users w"
  "accepted_users (snd (check_if_correct_fork gw p t ex w)) = accepted_users w"
  "forked_repos (snd (check_if_correct_fork gw p t ex w)) = forked_repos w"
  by (auto simp: check_if_correct_fork_def split_def Let_def)

lemma delete_repository_fields [simp]:
  "fst (delete_repository gw p t w) = success (gw w (Delete_repo p) t)"
  "trace (snd (delete_repository gw p t w))
     = trace w @ Call (Delete_repo p) t (gw w (Delete_repo p) t)
         # (if success (gw w (Delete_repo p) t) then [Sleep 5]
            else [Log (Log_delete_failed p (error (gw w (Delete_repo p) t))),
                  Print_error (Err_delete p)])"
  "invited_users (snd (delete_repository gw p t w)) = invited_users w"
  "accepted_users (snd (delete_repository gw p t w)) = accepted_users w"
  "forked_repos (snd (delete_repository gw p t w)) = forked_repos w"
  by (auto simp: delete_repository_def split_def Let_def)

lemma get_default_branch_fields [simp]:
  "trace (snd (get_default_branch gw p t w))
     = trace w @ [Call (Get_default_branch p) t (gw w (Get_default_branch p) t)]"
  "invited_users (snd (get_default_branch gw p t w)) = invited_users w"
  "accepted_users (snd (get_default_branch gw p t w)) = accepted_users w"
  "forked_repos (snd (get_default_branch gw p t w)) = forked_repos w"
  by (auto simp: get_default_branch_def split_def Let_def)

lemma sync_fork_with_upstream_fields [simp]:
  "\<exists>r0 r1 r2. trace (snd (sync_fork_with_upstream gw p t w))
     = trace w @ [Call (Get_default_branch p) t r0,
                  Call (Disable_workflow p ''datagram-runner.yml'') t r1,
                  Call (Merge_upstream p (fst (get_default_branch gw p t w))) t r2]"
  "invited_users (snd (sync_fork_with_upstream gw p t w)) = invited_users w"
  "accepted_users (snd (sync_fork_with_upstream gw p t w)) = accepted_users w"
  "forked_repos (snd (sync_fork_with_upstream gw p t w)) = forked_repos w"
  by (auto simp: sync_fork_with_upstream_def split_def Let_def)

lemma create_new_fork_unfold:
  assumes "split_on CHR ''/'' src = owner # name # others"
  shows "create_new_fork gw u t src w
    = (let w1 = remove_stale_entry u w;
           r = gw w1 (Create_fork src) t;
           w2 = snd (run_gh_api gw (Create_fork src) t w1);
           pf = poll_fork gw (u @ ''/'' @ name) t (now w2) w2
       in if \<not> success r \<and> \<not> str_in ''forks must have unique names'' (lower (get_error r))
          then (Ok False, write_log (Log_fork_failed u (error r))
                            (print_error (Err_fork_creation (error r)) w2))
          else if \<not> fst pf then (Ok False, print_error Err_timeout (snd pf))
          else (Ok True, append_to_file Forked u
                  (disable_workflow gw (u @ ''/'' @ name) t ''datagram-runner.yml'' (snd pf))))"
  using assms by (simp add: create_new_fork_def split_def Let_def)

lemma create_new_fork_raise:
  assumes "\<And>owner name others. split_on CHR ''/'' src \<noteq> owner # name # others"
  shows "create_new_fork gw u t src w = (Raise IndexError, w)"
  using assms by (auto simp: create_new_fork_def split: list.splits)

lemma create_new_fork_new:
  assumes "\<And>ls. u \<notin> set ls \<Longrightarrow> P (Write_lines Forked ls)"
    and "\<And>r. P (Call (Create_fork src) t r)"
    and "\<And>p r. P (Call (Get_repo p) t r)"
    and "\<And>p n r. P (Call (Disable_workflow p n) t r)"
    and "P (Append_line Forked u)"
    and "\<And>n. P (Sleep n)" and "\<And>l. P (Log l)" and "\<And>m. P (Print_error m)"
  shows "all_new P w (snd (create_new_fork gw u t src w))"
proof (cases "\<exists>owner name others. split_on CHR ''/'' src = owner # name # others")
  case False
  then show ?thesis by (simp add: create_new_fork_raise)
next
  case True
  then obtain owner name others where sp: "split_on CHR ''/'' src = owner # name # others"
    by blast
  let ?w1 = "remove_stale_entry u w"
  let ?w2 = "snd (run_gh_api gw (Create_fork src) t ?w1)"
  let ?pf = "poll_fork gw (u @ ''/'' @ name) t (now ?w2) ?w2"
  have 1: "all_new P w ?w1" by (rule remove_stale_entry_new) (rule assms)
  have 2: "all_new P w ?w2" by (intro all_new_run_gh_api 1 assms)
  have "all_new P ?w2 (snd ?pf)" by (rule poll_fork_new) (rule assms)+
  with 2 have 3: "all_new P w (snd ?pf)" by (rule all_new_trans)
  show ?thesis
    unfolding create_new_fork_unfold [OF sp] Let_def
    using 2 3
    by (auto intro!: all_new_write_log all_new_print_error all_new_append_to_file
          all_new_disable_workflow assms)
qed

lemma create_new_fork_files:
  "invited_users (snd (create_new_fork gw u t src w)) = invited_users w"
  "accepted_users (snd (create_new_fork gw u t src w)) = accepted_users w"
  "forked_repos (snd (create_new_fork gw u t src w))
     = (if \<exists>owner name others. split_on CHR ''/'' src = owner # name # others
        then filter (\<lambda>l. l \<noteq> u) (forked_repos w)
               @ (if fst (create_new_fork gw u t src w) = Ok True then [u] else [])
        else forked_repos w)"
proof -
  show "invited_users (snd (create_new_fork gw u t src w)) = invited_users w"
  proof (cases "\<exists>owner name others. split_on CHR ''/'' src = owner # name # others")
    case False
    then show ?thesis by (simp add: create_new_fork_raise)
  next
    case True
    then obtain owner name others where sp: "split_on CHR ''/'' src = owner # name # others"
      by blast
    show ?thesis
      unfolding create_new_fork_unfold [OF sp] Let_def by (simp add: poll_fork_files)
  qed
  show "accepted_users (snd (create_new_fork gw u t src w)) = accepted_users w"
  proof (cases "\<exists>owner name others. split_on CHR ''/'' src = owner # name # others")
    case False
    then show ?thesis by (simp add: create_new_fork_raise)
  next
    case True
    then obtain owner name others where sp: "split_on CHR ''/'' src = owner # name # others"
      by blast
    show ?thesis
      unfolding create_new_fork_unfold [OF sp] Let_def by (simp add: poll_fork_files)
  qed
  show "forked_repos (snd (create_new_fork gw u t src w))
     = (if \<exists>owner name others. split_on CHR ''/'' src = owner # name # others
        then filter (\<lambda>l. l \<noteq> u) (forked_repos w)
               @ (if fst (create_new_fork gw u t src w) = Ok True then [u] else [])
        else forked_repos w)"
  proof (cases "\<exists>owner name others. split_on CHR ''/'' src = owner # name # others")
    case False
    then show ?thesis by (simp add: create_new_fork_raise)
  next
    case True
    then obtain owner name others where sp: "split_on CHR ''/'' src = owner # name # others"
      by blast
    show ?thesis
      using True unfolding create_new_fork_unfold [OF sp] Let_def
      by (simp add: poll_fork_files)
  qed
qed

lemma split_on_nonempty: "split_on c s \<noteq> []"
  by (induction s) (auto split: list.splits)

lemma split_on_slash:
  "\<exists>owner name others. split_on c (a @ c # b) = owner # name # others"
proof (induction a)
  case Nil
  then show ?case using split_on_nonempty [of c b] by (cases "split_on c b") auto
next
  case (Cons x a)
  then show ?case by (auto split: list.splits)
qed


lemma check_if_correct_fork_new:
  "(\<And>r. P (Call (Get_parent p) t r)) \<Longrightarrow> all_new P w (snd (check_if_correct_fork gw p t ex w))"
  by (simp add: all_new_def)

lemma delete_repository_new:
  assumes "\<And>r. P (Call (Delete_repo p) t r)"
    and "\<And>n. P (Sleep n)" and "\<And>l. P (Log l)" and "\<And>m. P (Print_error m)"
  shows "all_new P w (snd (delete_repository gw p t w))"
  by (simp add: all_new_def assms)

lemma sync_fork_with_upstream_new:
  assumes "\<And>r. P (Call (Get_default_branch p) t r)"
    and "\<And>n r. P (Call (Disable_workflow p n) t r)"
    and "\<And>b r. P (Call (Merge_upstream p b) t r)"
  shows "all_new P w (snd (sync_fork_with_upstream gw p t w))"
proof -
  from sync_fork_with_upstream_fields(1) [of gw p t w] obtain r0 r1 r2 where
    "trace (snd (sync_fork_with_upstream gw p t w))
     = trace w @ [Call (Get_default_branch p) t r0,
                  Call (Disable_workflow p ''datagram-runner.yml'') t r1,
                  Call (Merge_upstream p (fst (get_default_branch gw p t w))) t r2]"
    by blast
  then show ?thesis by (simp add: all_new_def assms)
qed

lemma create_and_count_snd:
  "snd (create_and_count gw u t src cnt w)
     = (case fst (create_new_fork gw u t src w) of
          Raise e \<Rightarrow> snd (create_new_fork gw u t src w)
        | Ok b \<Rightarrow> sleep 2 (snd (create_new_fork gw u t src w)))"
  by (cases "create_new_fork gw u t src w")
     (auto simp: create_and_count_def split: res.splits bool.splits)

lemma create_and_count_new:
  assumes "\<And>ls. u \<notin> set ls \<Longrightarrow> P (Write_lines Forked ls)"
    and "\<And>r. P (Call (Create_fork src) t r)"
    and "\<And>p r. P (Call (Get_repo p) t r)"
    and "\<And>p n r. P (Call (Disable_workflow p n) t r)"
    and "P (Append_line Forked u)"
    and "\<And>n. P (Sleep n)" and "\<And>l. P (Log l)" and "\<And>m. P (Print_error m)"
  shows "all_new P w (snd (create_and_count gw u t src cnt w))"
proof -
  have "all_new P w (snd (create_new_fork gw u t src w))"
    by (rule create_new_fork_new) (auto intro: assms)
  then show ?thesis
    unfolding create_and_count_snd
    by (auto split: res.splits intro: all_new_sleep assms)
qed

lemma create_and_count_files:
  "invited_users (snd (create_and_count gw u t src cnt w)) = invited_users w"
  "accepted_users (snd (create_and_count gw u t src cnt w)) = accepted_users w"
  "forked_repos (snd (create_and_count gw u t src cnt w))
     = forked_repos (snd (create_new_fork gw u t src w))"
  unfolding create_and_count_snd
  by (simp_all add: create_new_fork_files(1,2) split: res.splits)

lemma process_user_mode2:
  "process_user gw ''2'' src rn (u, t) cnt w
    = (let path = u @ ''/'' @ rn;
           w1 = snd (check_if_correct_fork gw path t src w);
           w2 = snd (run_gh_api gw (Get_repo path) t w1);
           w3 = snd (delete_repository gw path t w2)
       in if success (gw w1 (Get_repo path) t)
          then (if \<not> success (gw w2 (Delete_repo path) t) then (Ok (fst cnt, snd cnt + 1), w3)
                else create_and_count gw u t src cnt w3)
          else create_and_count gw u t src cnt w2)"
  by (simp add: process_user_def split_def Let_def)

lemma process_user_mode1:
  "process_user gw ''1'' src rn (u, t) cnt w
    = (let path = u @ ''/'' @ rn;
           w1 = snd (check_if_correct_fork gw path t src w);
           s = sync_fork_with_upstream gw path t w1
       in if fst (check_if_correct_fork gw path t src w)
          then (Ok (if fst s then (fst cnt + 1, snd cnt) else (fst cnt, snd cnt + 1)),
                sleep 2 (snd s))
          else create_and_count gw u t src cnt w1)"
  by (simp add: process_user_def split_def Let_def)

lemma process_user_other:
  "action \<noteq> ''2'' \<Longrightarrow> action \<noteq> ''1'' \<Longrightarrow>
   process_user gw action src rn (u, t) cnt w
    = (Ok cnt, sleep 2 (snd (check_if_correct_fork gw (u @ ''/'' @ rn) t src w)))"
  by (simp add: process_user_def split_def Let_def)

lemma process_user_new:
  assumes "\<And>r. P (Call (Get_parent (u @ ''/'' @ rn)) t r)"
    and "\<And>r. P (Call (Delete_repo (u @ ''/'' @ rn)) t r)"
    and "\<And>r. P (Call (Get_default_branch (u @ ''/'' @ rn)) t r)"
    and "\<And>b r. P (Call (Merge_upstream (u @ ''/'' @ rn) b) t r)"
    and "\<And>ls. u \<notin> set ls \<Longrightarrow> P (Write_lines Forked ls)"
    and "\<And>r. P (Call (Create_fork src) t r)"
    and "\<And>p r. P (Call (Get_repo p) t r)"
    and "\<And>p n r. P (Call (Disable_workflow p n) t r)"
    and "P (Append_line Forked u)"
    and "\<And>n. P (Sleep n)" and "\<And>l. P (Log l)" and "\<And>m. P (Print_error m)"
  shows "all_new P w (snd (process_user gw action src rn (u, t) cnt w))"
proof -
  let ?path = "u @ ''/'' @ rn"
  let ?w1 = "snd (check_if_correct_fork gw ?path t src w)"
  let ?w2 = "snd (run_gh_api gw (Get_repo ?path) t ?w1)"
  let ?w3 = "snd (delete_repository gw ?path t ?w2)"
  have 1: "all_new P w ?w1" by (rule check_if_correct_fork_new) (rule assms)
  have 2: "all_new P w ?w2" by (intro all_new_run_gh_api 1 assms)
  have "all_new P ?w2 ?w3" by (rule delete_repository_new) (rule assms)+
  with 2 have 3: "all_new P w ?w3" by (rule all_new_trans)
  have cc: "all_new P v (snd (create_and_count gw u t src cnt v))" for v
    by (rule create_and_count_new) (auto intro: assms)
  have "all_new P ?w1 (snd (sync_fork_with_upstream gw ?path t ?w1))"
    by (rule sync_fork_with_upstream_new) (rule assms)+
  with 1 have 4: "all_new P w (snd (sync_fork_with_upstream gw ?path t ?w1))"
    by (rule all_new_trans)
  consider "action = ''2''" | "action = ''1''" | "action \<noteq> ''2''" "action \<noteq> ''1''" by blast
  then show ?thesis
  proof cases
    case 1
    have "all_new P w (snd (if success (gw ?w1 (Get_repo ?path) t)
          then (if \<not> success (gw ?w2 (Delete_repo ?path) t) then (Ok (fst cnt, snd cnt + 1), ?w3)
                else create_and_count gw u t src cnt ?w3)
          else create_and_count gw u t src cnt ?w2))"
      using 2 3 cc [of ?w2] cc [of ?w3] by (auto intro: all_new_trans)
    then show ?thesis unfolding 1 process_user_mode2 Let_def .
  next
    case 2
    have "all_new P w (snd (if fst (check_if_correct_fork gw ?path t src w)
          then (Ok (if fst (sync_fork_with_upstream gw ?path t ?w1) then (fst cnt + 1, snd cnt)
                    else (fst cnt, snd cnt + 1)),
                sleep 2 (snd (sync_fork_with_upstream gw ?path t ?w1)))
          else create_and_count gw u t src cnt ?w1))"
      using \<open>all_new P w ?w1\<close> 4 cc [of ?w1]
      by (auto intro: all_new_trans all_new_sleep assms simp del: check_if_correct_fork_fields(1))
    then show ?thesis unfolding 2 process_user_mode1 Let_def .
  next
    case 3
    then show ?thesis
      using \<open>all_new P w ?w1\<close> by (simp add: process_user_other all_new_sleep assms)
  qed
qed

lemma process_user_files:
  "invited_users (snd (process_user gw action src rn (u, t) cnt w)) = invited_users w"
  "accepted_users (snd (process_user gw action src rn (u, t) cnt w)) = accepted_users w"
  "filter (\<lambda>l. l \<noteq> u) (forked_repos (snd (process_user gw action src rn (u, t) cnt w)))
     = filter (\<lambda>l. l \<noteq> u) (forked_repos w)"
proof -
  consider "action = ''2''" | "action = ''1''" | "action \<noteq> ''2''" "action \<noteq> ''1''" by blast
  note cases3 = this
  show "invited_users (snd (process_user gw action src rn (u, t) cnt w)) = invited_users w"
    using cases3
    by cases (simp_all add: process_user_mode2 process_user_mode1 process_user_other Let_def
        create_and_count_files del: check_if_correct_fork_fields(1))
  show "accepted_users (snd (process_user gw action src rn (u, t) cnt w)) = accepted_users w"
    using cases3
    by cases (simp_all add: process_user_mode2 process_user_mode1 process_user_other Let_def
        create_and_count_files del: check_if_correct_fork_fields(1))
  have cc: "filter (\<lambda>l. l \<noteq> u) (forked_repos (snd (create_and_count gw u t src cnt v)))
      = filter (\<lambda>l. l \<noteq> u) (forked_repos v)" for v
    by (simp add: create_and_count_files create_new_fork_files(3))
  show "filter (\<lambda>l. l \<noteq> u) (forked_repos (snd (process_user gw action src rn (u, t) cnt w)))
     = filter (\<lambda>l. l \<noteq> u) (forked_repos w)"
    using cases3
    by cases (simp_all add: process_user_mode2 process_user_mode1 process_user_other Let_def
        cc del: check_if_correct_fork_fields(1))
qed

lemma fork_loop_inv:
  assumes "\<And>ut cnt w. ut \<in> set us \<Longrightarrow> I w \<Longrightarrow> I (snd (process_user gw action src rn ut cnt w))"
    and "I w"
  shows "I (snd (fork_loop gw action src rn us cnt w))"
  using assms
proof (induction us arbitrary: cnt w)
  case Nil
  then show ?case by simp
next
  case (Cons ut us)
  have one: "I (snd (process_user gw action src rn ut cnt w))"
    using Cons.prems by simp
  show ?case
  proof (cases "process_user gw action src rn ut cnt w")
    case (Pair r w1)
    show ?thesis
    proof (cases r)
      case (Raise e)
      with Pair one show ?thesis by simp
    next
      case (Ok cnt1)
      have "I (snd (fork_loop gw action src rn us cnt1 w1))"
        using Cons.prems one Pair by (intro Cons.IH) simp_all
      with Pair Ok show ?thesis by simp
    qed
  qed
qed

lemma set_update_subset: "set (AList.update k v al) \<subseteq> insert (k, v) (set al)"
  by (induction al) auto

lemma users_to_process_acc:
  "(u, t) \<in> set (foldl (\<lambda>d tu. if snd tu \<noteq> m then AList.update (snd tu) (fst tu) d else d) d0 tc)
   \<Longrightarrow> (u, t) \<in> set d0 \<or> ((t, u) \<in> set tc \<and> u \<noteq> m)"
proof (induction tc arbitrary: d0)
  case Nil
  then show ?case by simp
next
  case (Cons a tc)
  from Cons.IH [OF Cons.prems [simplified]] set_update_subset [of "snd a" "fst a" d0]
  show ?case by (cases a) (auto split: if_splits)
qed

lemma users_to_process_sound:
  "(u, t) \<in> set (users_to_process m tc) \<Longrightarrow> (t, u) \<in> set tc \<and> u \<noteq> m"
  using users_to_process_acc [of u t m "[]" tc] by (simp add: users_to_process_def)

lemma invoke_fork_inv:
  assumes "I w" and "I (print_error Err_config_unset w)"
    and "I (print_error Err_token_cache_empty w)"
    and "\<And>cfg action. config = Some cfg \<Longrightarrow>
           I (snd (fork_loop gw action (main_account_username cfg @ ''/'' @ main_repo_name cfg)
                    (main_repo_name cfg) (users_to_process (main_account_username cfg) tc)
                    (0, 0) w))"
  shows "I (snd (invoke_auto_create_or_sync_fork gw config tc inputs w))"
proof (cases config)
  case None
  then show ?thesis by (simp add: invoke_auto_create_or_sync_fork_def assms)
next
  case (Some cfg)
  have run: "I (snd (run_fork_loop gw action cfg tc w))" for action
    using assms(4) [OF Some, of action]
    by (auto simp: run_fork_loop_def Let_def split: prod.splits res.splits)
  show ?thesis
    using Some run assms(1-3)
    by (auto simp: invoke_auto_create_or_sync_fork_def split: res.splits list.splits prod.splits)
qed


subsection \<open>Force Clean and Create: deletion before creation\<close>

text \<open>
  Claim C1. In mode \<open>2\<close>, when the existence probe finds a repository at the fork
  path of an account, the pass for that account opens with the parentage probe, the
  existence probe and the deletion call, whose result \<open>rd\<close> is in the trace before
  anything else happens: a fork creation for the account, if any, is issued from the
  state the deletion left. When the deletion fails, the pass ends there with the
  failure logged and counted; it holds no fork-creation call, and the loop goes on with
  the next account.
\<close>

theorem failed_deletion_prevents_creation:
  assumes "path = u @ ''/'' @ rn"
    and "w1 = snd (check_if_correct_fork gw path t src w)"
    and "success (gw w1 (Get_repo path) t)"
    and "w2 = snd (run_gh_api gw (Get_repo path) t w1)"
    and "rd = gw w2 (Delete_repo path) t"
    and "w3 = snd (delete_repository gw path t w2)"
    and "w' = snd (process_user gw ''2'' src rn (u, t) cnt w)"
  shows "(\<exists>rest. new_events w w'
            = [Call (Get_parent path) t (gw w (Get_parent path) t),
               Call (Get_repo path) t (gw w1 (Get_repo path) t),
               Call (Delete_repo path) t rd] @ rest)
       \<and> (success rd \<longrightarrow>
            new_events w w3
              = [Call (Get_parent path) t (gw w (Get_parent path) t),
                 Call (Get_repo path) t (gw w1 (Get_repo path) t),
                 Call (Delete_repo path) t rd, Sleep 5]
            \<and> process_user gw ''2'' src rn (u, t) cnt w = create_and_count gw u t src cnt w3)
       \<and> (\<not> success rd \<longrightarrow>
            process_user gw ''2'' src rn (u, t) cnt w = (Ok (fst cnt, snd cnt + 1), w3)
            \<and> new_events w w'
                = [Call (Get_parent path) t (gw w (Get_parent path) t),
                   Call (Get_repo path) t (gw w1 (Get_repo path) t),
                   Call (Delete_repo path) t rd,
                   Log (Log_delete_failed path (error rd)), Print_error (Err_delete path)]
            \<and> (\<forall>s t' r. Call (Create_fork s) t' r \<notin> set (new_events w w'))
            \<and> fork_loop gw ''2'' src rn ((u, t) # others) cnt w
                = fork_loop gw ''2'' src rn others (fst cnt, snd cnt + 1) w3)"
proof -
  have tr3: "trace w3 = trace w @ [Call (Get_parent path) t (gw w (Get_parent path) t),
               Call (Get_repo path) t (gw w1 (Get_repo path) t),
               Call (Delete_repo path) t rd]
              @ (if success rd then [Sleep 5]
                 else [Log (Log_delete_failed path (error rd)), Print_error (Err_delete path)])"
    by (simp add: assms(2,4,5,6))
  have pu: "process_user gw ''2'' src rn (u, t) cnt w
      = (if \<not> success rd then (Ok (fst cnt, snd cnt + 1), w3)
         else create_and_count gw u t src cnt w3)"
    using assms(3) unfolding process_user_mode2 Let_def assms(1-6) by simp
  have cc: "all_new (\<lambda>e. True) w3 (snd (create_and_count gw u t src cnt w3))"
    by (rule create_and_count_new) simp_all
  have first: "\<exists>rest. new_events w w'
            = [Call (Get_parent path) t (gw w (Get_parent path) t),
               Call (Get_repo path) t (gw w1 (Get_repo path) t),
               Call (Delete_repo path) t rd] @ rest"
  proof (cases "success rd")
    case False
    with pu tr3 show ?thesis by (simp add: assms(7) new_events_def)
  next
    case True
    with pu have "w' = snd (create_and_count gw u t src cnt w3)" by (simp add: assms(7))
    with cc obtain es where "trace w' = trace w3 @ es" by (auto simp: all_new_def)
    with tr3 True show ?thesis by (simp add: new_events_def)
  qed
  have ok: "success rd \<longrightarrow>
            new_events w w3
              = [Call (Get_parent path) t (gw w (Get_parent path) t),
                 Call (Get_repo path) t (gw w1 (Get_repo path) t),
                 Call (Delete_repo path) t rd, Sleep 5]
            \<and> process_user gw ''2'' src rn (u, t) cnt w = create_and_count gw u t src cnt w3"
    using pu tr3 by (simp add: new_events_def)
  have failed: "\<not> success rd \<longrightarrow>
            process_user gw ''2'' src rn (u, t) cnt w = (Ok (fst cnt, snd cnt + 1), w3)
            \<and> new_events w w'
                = [Call (Get_parent path) t (gw w (Get_parent path) t),
                   Call (Get_repo path) t (gw w1 (Get_repo path) t),
                   Call (Delete_repo path) t rd,
                   Log (Log_delete_failed path (error rd)), Print_error (Err_delete path)]
            \<and> (\<forall>s t' r. Call (Create_fork s) t' r \<notin> set (new_events w w'))
            \<and> fork_loop gw ''2'' src rn ((u, t) # others) cnt w
                = fork_loop gw ''2'' src rn others (fst cnt, snd cnt + 1) w3"
    using pu tr3 by (auto simp: new_events_def assms(7))
  from first ok failed show ?thesis by blast
qed


subsection \<open>The trace of a fork creation\<close>

lemma create_new_fork_tail:
  assumes "split_on CHR ''/'' src = owner # name # others"
    and "\<And>p r. P (Call (Get_repo p) t r)"
    and "\<And>p n r. P (Call (Disable_workflow p n) t r)"
    and "P (Append_line Forked u)"
    and "\<And>n. P (Sleep n)" and "\<And>l. P (Log l)" and "\<And>m. P (Print_error m)"
  shows "all_new P (snd (run_gh_api gw (Create_fork src) t (remove_stale_entry u w)))
           (snd (create_new_fork gw u t src w))"
proof -
  let ?w2 = "snd (run_gh_api gw (Create_fork src) t (remove_stale_entry u w))"
  let ?pf = "poll_fork gw (u @ ''/'' @ name) t (now ?w2) ?w2"
  have 3: "all_new P ?w2 (snd ?pf)" by (rule poll_fork_new) (rule assms)+
  show ?thesis
    unfolding create_new_fork_unfold [OF assms(1)] Let_def
    using 3
    by (auto intro!: all_new_write_log all_new_print_error all_new_append_to_file
          all_new_disable_workflow assms(2-))
qed

lemma create_new_fork_trace:
  assumes "split_on CHR ''/'' src = owner # name # others"
  shows "\<exists>rest. new_events w (snd (create_new_fork gw u t src w))
           = (if u \<in> set (forked_repos w)
              then [Write_lines Forked (filter (\<lambda>l. l \<noteq> u) (forked_repos w))] else [])
             @ Call (Create_fork src) t (gw (remove_stale_entry u w) (Create_fork src) t) # rest
         \<and> (\<forall>f ls. Write_lines f ls \<notin> set rest)
         \<and> (\<forall>p b t' r. Call (Merge_upstream p b) t' r \<notin> set rest)"
proof -
  let ?P = "\<lambda>e. (\<forall>f ls. e \<noteq> Write_lines f ls) \<and> (\<forall>p b t' r. e \<noteq> Call (Merge_upstream p b) t' r)"
  have "all_new ?P (snd (run_gh_api gw (Create_fork src) t (remove_stale_entry u w)))
           (snd (create_new_fork gw u t src w))"
    by (rule create_new_fork_tail [OF assms]) simp_all
  then obtain rest where
    "trace (snd (create_new_fork gw u t src w))
       = trace (snd (run_gh_api gw (Create_fork src) t (remove_stale_entry u w))) @ rest"
    "list_all ?P rest"
    by (auto simp: all_new_def)
  then show ?thesis
    by (intro exI [of _ rest]) (auto simp: new_events_def list_all_iff)
qed

subsection \<open>Sync and Keep: one path per account\<close>

text \<open>
  Claim C4. In mode \<open>1\<close>, the fork of an account counts as valid exactly when the
  parentage probe succeeds and the parent it names (whitespace and quotes stripped)
  equals the source repository, letter case aside. For a valid fork the pass is the
  sync, with a merge-from-upstream call and no fork-creation call; otherwise the pass
  is the creation, with the fork-creation call and no merge-from-upstream call.
\<close>

theorem sync_and_keep_paths:
  assumes "path = u @ ''/'' @ rn"
    and "src = m @ ''/'' @ rn"
    and "rp = gw w (Get_parent path) t"
    and "valid = (success rp \<and> lower (strip_quotes (strip (output_text rp))) = lower src)"
    and "w1 = snd (check_if_correct_fork gw path t src w)"
    and "w' = snd (process_user gw ''1'' src rn (u, t) cnt w)"
  shows "fst (check_if_correct_fork gw path t src w) = valid
       \<and> (valid \<longrightarrow>
            (\<forall>s t' r. Call (Create_fork s) t' r \<notin> set (new_events w w'))
            \<and> (\<exists>b r. Call (Merge_upstream path b) t r \<in> set (new_events w w'))
            \<and> w' = sleep 2 (snd (sync_fork_with_upstream gw path t w1)))
       \<and> (\<not> valid \<longrightarrow>
            (\<forall>p b t' r. Call (Merge_upstream p b) t' r \<notin> set (new_events w w'))
            \<and> (\<exists>r. Call (Create_fork src) t r \<in> set (new_events w w'))
            \<and> process_user gw ''1'' src rn (u, t) cnt w = create_and_count gw u t src cnt w1)"
proof -
  have v: "fst (check_if_correct_fork gw path t src w) = valid"
    by (simp add: assms(3,4))
  have tr1: "trace w1 = trace w @ [Call (Get_parent path) t rp]"
    by (simp add: assms(3,5))
  have sync: "(\<forall>s t' r. Call (Create_fork s) t' r \<notin> set (new_events w w'))
            \<and> (\<exists>b r. Call (Merge_upstream path b) t r \<in> set (new_events w w'))
            \<and> w' = sleep 2 (snd (sync_fork_with_upstream gw path t w1))" if valid
  proof -
    from that v have "fst (check_if_correct_fork gw path t src w)" by blast
    then have w': "w' = sleep 2 (snd (sync_fork_with_upstream gw path t w1))"
      unfolding assms(6) process_user_mode1 Let_def assms(5)
      by (simp del: check_if_correct_fork_fields(1) add: assms(1))
    from sync_fork_with_upstream_fields(1) [of gw path t w1] obtain r0 r1 r2 where
      "trace (snd (sync_fork_with_upstream gw path t w1))
       = trace w1 @ [Call (Get_default_branch path) t r0,
                  Call (Disable_workflow path ''datagram-runner.yml'') t r1,
                  Call (Merge_upstream path (fst (get_default_branch gw path t w1))) t r2]"
      by blast
    with tr1 have "new_events w w'
       = [Call (Get_parent path) t rp, Call (Get_default_branch path) t r0,
          Call (Disable_workflow path ''datagram-runner.yml'') t r1,
          Call (Merge_upstream path (fst (get_default_branch gw path t w1))) t r2, Sleep 2]"
      by (simp add: w' new_events_def)
    with w' show ?thesis by auto
  qed
  have create: "(\<forall>p b t' r. Call (Merge_upstream p b) t' r \<notin> set (new_events w w'))
            \<and> (\<exists>r. Call (Create_fork src) t r \<in> set (new_events w w'))
            \<and> process_user gw ''1'' src rn (u, t) cnt w = create_and_count gw u t src cnt w1"
    if "\<not> valid"
  proof -
    from that v have "\<not> fst (check_if_correct_fork gw path t src w)" by blast
    then have pu: "process_user gw ''1'' src rn (u, t) cnt w = create_and_count gw u t src cnt w1"
      unfolding process_user_mode1 Let_def assms(5)
      by (simp del: check_if_correct_fork_fields(1) add: assms(1))
    from split_on_slash [of "CHR ''/''" m rn] obtain owner name others where
      sp: "split_on CHR ''/'' src = owner # name # others"
      by (auto simp: assms(2))
    from create_new_fork_trace [OF sp, of w1 gw u t] obtain rest where
      rest: "new_events w1 (snd (create_new_fork gw u t src w1))
           = (if u \<in> set (forked_repos w1)
              then [Write_lines Forked (filter (\<lambda>l. l \<noteq> u) (forked_repos w1))] else [])
             @ Call (Create_fork src) t (gw (remove_stale_entry u w1) (Create_fork src) t) # rest"
        "\<forall>p b t' r. Call (Merge_upstream p b) t' r \<notin> set rest"
      by blast
    have "all_new (\<lambda>e. True) w1 (snd (create_new_fork gw u t src w1))"
      by (rule create_new_fork_new) simp_all
    then obtain es where es: "trace (snd (create_new_fork gw u t src w1)) = trace w1 @ es"
      by (auto simp: all_new_def)
    then have ne1: "new_events w1 (snd (create_new_fork gw u t src w1)) = es" by simp
    have "\<exists>tl. trace w' = trace w @ Call (Get_parent path) t rp # es @ tl \<and> set tl \<subseteq> {Sleep 2}"
      unfolding assms(6) pu create_and_count_snd
      using es tr1 by (auto split: res.splits)
    then obtain tl where
      "new_events w w' = Call (Get_parent path) t rp # es @ tl" "set tl \<subseteq> {Sleep 2}"
      by (auto simp: new_events_def)
    with rest [unfolded ne1] pu show ?thesis by (auto split: if_splits)
  qed
  from v sync create show ?thesis by blast
qed


subsection \<open>The loop over the accounts\<close>

lemma filter_not_in_drop:
  "u \<in> S \<Longrightarrow> filter (\<lambda>l. l \<notin> S) (filter (\<lambda>l. l \<noteq> u) xs) = filter (\<lambda>l. l \<notin> S) xs"
  by (induction xs) auto

lemma fork_loop_new:
  assumes "\<And>u t c r. (u, t) \<in> set us \<Longrightarrow> Q u c \<Longrightarrow> P (Call c t r)"
    and "\<And>u t. (u, t) \<in> set us \<Longrightarrow> Q u (Get_parent (u @ ''/'' @ rn))"
    and "\<And>u t. (u, t) \<in> set us \<Longrightarrow> Q u (Delete_repo (u @ ''/'' @ rn))"
    and "\<And>u t. (u, t) \<in> set us \<Longrightarrow> Q u (Get_default_branch (u @ ''/'' @ rn))"
    and "\<And>u t b. (u, t) \<in> set us \<Longrightarrow> Q u (Merge_upstream (u @ ''/'' @ rn) b)"
    and "\<And>u t. (u, t) \<in> set us \<Longrightarrow> Q u (Create_fork src)"
    and "\<And>u t p. (u, t) \<in> set us \<Longrightarrow> Q u (Get_repo p)"
    and "\<And>u t p n. (u, t) \<in> set us \<Longrightarrow> Q u (Disable_workflow p n)"
    and "\<And>u t ls. (u, t) \<in> set us \<Longrightarrow> u \<notin> set ls \<Longrightarrow> P (Write_lines Forked ls)"
    and "\<And>u t. (u, t) \<in> set us \<Longrightarrow> P (Append_line Forked u)"
    and "\<And>n. P (Sleep n)" and "\<And>l. P (Log l)" and "\<And>m. P (Print_error m)"
  shows "all_new P w (snd (fork_loop gw action src rn us cnt w))"
proof (rule fork_loop_inv [where I = "all_new P w"])
  fix ut cnt' and w' :: world
  assume ut: "ut \<in> set us" and w': "all_new P w w'"
  obtain u t where [simp]: "ut = (u, t)" by (cases ut)
  have call: "Q u c \<Longrightarrow> P (Call c t r)" for c r
    using assms(1) [of u t c r] ut by simp
  have "all_new P w' (snd (process_user gw action src rn (u, t) cnt' w'))"
    using ut by (intro process_user_new call) (auto intro: assms(2-) assms(2-5) [simplified])
  with w' show "all_new P w (snd (process_user gw action src rn ut cnt' w'))"
    by (auto intro: all_new_trans)
qed simp

lemma fork_loop_files:
  "invited_users (snd (fork_loop gw action src rn us cnt w)) = invited_users w
   \<and> accepted_users (snd (fork_loop gw action src rn us cnt w)) = accepted_users w
   \<and> filter (\<lambda>l. l \<notin> fst ` set us) (forked_repos (snd (fork_loop gw action src rn us cnt w)))
       = filter (\<lambda>l. l \<notin> fst ` set us) (forked_repos w)"
proof (rule fork_loop_inv [where I = "\<lambda>w'. invited_users w' = invited_users w
   \<and> accepted_users w' = accepted_users w
   \<and> filter (\<lambda>l. l \<notin> fst ` set us) (forked_repos w')
       = filter (\<lambda>l. l \<notin> fst ` set us) (forked_repos w)"])
  fix ut cnt' and w' :: world
  assume ut: "ut \<in> set us"
    and I: "invited_users w' = invited_users w \<and> accepted_users w' = accepted_users w
      \<and> filter (\<lambda>l. l \<notin> fst ` set us) (forked_repos w')
          = filter (\<lambda>l. l \<notin> fst ` set us) (forked_repos w)"
  obtain u t where [simp]: "ut = (u, t)" by (cases ut)
  have u: "u \<in> fst ` set us" using ut by force
  let ?w'' = "snd (process_user gw action src rn (u, t) cnt' w')"
  have "filter (\<lambda>l. l \<notin> fst ` set us) (forked_repos ?w'')
      = filter (\<lambda>l. l \<notin> fst ` set us) (filter (\<lambda>l. l \<noteq> u) (forked_repos ?w''))"
    by (rule filter_not_in_drop [OF u, symmetric])
  also have "\<dots> = filter (\<lambda>l. l \<notin> fst ` set us) (filter (\<lambda>l. l \<noteq> u) (forked_repos w'))"
    by (simp only: process_user_files(3))
  also have "\<dots> = filter (\<lambda>l. l \<notin> fst ` set us) (forked_repos w')"
    by (rule filter_not_in_drop [OF u])
  finally show "invited_users (snd (process_user gw action src rn ut cnt' w')) = invited_users w
   \<and> accepted_users (snd (process_user gw action src rn ut cnt' w')) = accepted_users w
   \<and> filter (\<lambda>l. l \<notin> fst ` set us) (forked_repos (snd (process_user gw action src rn ut cnt' w')))
       = filter (\<lambda>l. l \<notin> fst ` set us) (forked_repos w)"
    using I by (simp add: process_user_files(1,2))
qed simp

lemma invite_one_forked:
  "forked_repos (snd (invite_one gw cfg rp u cnt w)) = forked_repos w
   \<and> accepted_users (snd (invite_one gw cfg rp u cnt w)) = accepted_users w"
  by (auto simp: invite_one_def split_def Let_def split: option.splits)

lemma invoke_auto_invite_inv:
  assumes "I w" and "I (print_error Err_config_unset w)"
    and "I (print_error Err_token_cache_empty w)"
    and "\<And>cfg rp us. config = Some cfg \<Longrightarrow> I (snd (invite_loop gw cfg rp us (0, 0) w))"
  shows "I (snd (invoke_auto_invite gw config tc w))"
  using assms
  by (cases config)
     (auto simp: invoke_auto_invite_def Let_def split_def split: res.splits)

lemma invoke_auto_invite_forked:
  "forked_repos (snd (invoke_auto_invite gw config tc w)) = forked_repos w
   \<and> accepted_users (snd (invoke_auto_invite gw config tc w)) = accepted_users w"
proof (rule invoke_auto_invite_inv)
  show "forked_repos (snd (invite_loop gw cfg rp us (0, 0) w)) = forked_repos w
     \<and> accepted_users (snd (invite_loop gw cfg rp us (0, 0) w)) = accepted_users w" for cfg rp us
    by (rule invite_loop_inv [where I = "\<lambda>w'. forked_repos w' = forked_repos w
          \<and> accepted_users w' = accepted_users w"])
       (simp_all add: invite_one_forked)
qed simp_all


subsection \<open>The repair of a stale checklist entry\<close>

text \<open>
  Claim C7. A fork creation for an account that stands in the forked checklist first
  rewrites the checklist without that account, and only then issues the creation
  request; nothing later in the creation rewrites a checklist. The rewrite drops that
  account's lines only: all other lines, in their order, are what the checklist holds
  when the request goes out and when the creation returns (on success the account is
  appended again), and the other two checklists are untouched. No other path removes
  an entry: over a whole run of the fork flow the entries of the forked checklist that
  belong to no processed account are as before, and every rewrite is that of a
  processed account; the prober, the deletion, the sync, the invite flow and the accept
  flow leave the forked checklist as it is and rewrite no checklist.
\<close>

theorem stale_entry_repair_is_local:
  "(split_on CHR ''/'' src = owner # name # others \<and> w' = snd (create_new_fork gw u t src w)
    \<longrightarrow> (\<exists>rest. new_events w w'
              = (if u \<in> set (forked_repos w)
                 then [Write_lines Forked (filter (\<lambda>l. l \<noteq> u) (forked_repos w))] else [])
                @ Call (Create_fork src) t (gw (remove_stale_entry u w) (Create_fork src) t) # rest
            \<and> (\<forall>f ls. Write_lines f ls \<notin> set rest))
        \<and> forked_repos (remove_stale_entry u w) = filter (\<lambda>l. l \<noteq> u) (forked_repos w)
        \<and> forked_repos w'
            = filter (\<lambda>l. l \<noteq> u) (forked_repos w)
              @ (if fst (create_new_fork gw u t src w) = Ok True then [u] else [])
        \<and> filter (\<lambda>l. l \<noteq> u) (forked_repos w') = filter (\<lambda>l. l \<noteq> u) (forked_repos w)
        \<and> invited_users w' = invited_users w
        \<and> accepted_users w' = accepted_users w)
 \<and> (config = Some cfg
      \<and> names = map fst (users_to_process (main_account_username cfg) tc)
      \<and> v' = snd (invoke_auto_create_or_sync_fork gw config tc inputs v)
    \<longrightarrow> filter (\<lambda>l. l \<notin> set names) (forked_repos v')
          = filter (\<lambda>l. l \<notin> set names) (forked_repos v)
        \<and> invited_users v' = invited_users v
        \<and> accepted_users v' = accepted_users v
        \<and> (\<forall>f ls. Write_lines f ls \<in> set (new_events v v')
              \<longrightarrow> f = Forked \<and> (\<exists>a \<in> set names. a \<notin> set ls)))
 \<and> forked_repos (snd (check_if_correct_fork gw p t ex x)) = forked_repos x
 \<and> forked_repos (snd (delete_repository gw p t x)) = forked_repos x
 \<and> forked_repos (snd (sync_fork_with_upstream gw p t x)) = forked_repos x
 \<and> forked_repos (snd (invoke_auto_invite gw config tc x)) = forked_repos x
 \<and> forked_repos (snd (invoke_auto_accept gw jl config tc x)) = forked_repos x
 \<and> (\<forall>f ls. Write_lines f ls \<notin> set (new_events x (snd (invoke_auto_invite gw config tc x))))
 \<and> (\<forall>f ls. Write_lines f ls
       \<notin> set (new_events x (snd (invoke_auto_accept gw jl config tc x))))"
proof -
  have A: "(\<exists>rest. new_events w w'
              = (if u \<in> set (forked_repos w)
                 then [Write_lines Forked (filter (\<lambda>l. l \<noteq> u) (forked_repos w))] else [])
                @ Call (Create_fork src) t (gw (remove_stale_entry u w) (Create_fork src) t) # rest
            \<and> (\<forall>f ls. Write_lines f ls \<notin> set rest))
        \<and> forked_repos (remove_stale_entry u w) = filter (\<lambda>l. l \<noteq> u) (forked_repos w)
        \<and> forked_repos w'
            = filter (\<lambda>l. l \<noteq> u) (forked_repos w)
              @ (if fst (create_new_fork gw u t src w) = Ok True then [u] else [])
        \<and> filter (\<lambda>l. l \<noteq> u) (forked_repos w') = filter (\<lambda>l. l \<noteq> u) (forked_repos w)
        \<and> invited_users w' = invited_users w
        \<and> accepted_users w' = accepted_users w"
    if sp: "split_on CHR ''/'' src = owner # name # others"
      and w': "w' = snd (create_new_fork gw u t src w)"
  proof -
    from create_new_fork_trace [OF sp, of w gw u t]
    have 1: "\<exists>rest. new_events w w'
              = (if u \<in> set (forked_repos w)
                 then [Write_lines Forked (filter (\<lambda>l. l \<noteq> u) (forked_repos w))] else [])
                @ Call (Create_fork src) t (gw (remove_stale_entry u w) (Create_fork src) t) # rest
            \<and> (\<forall>f ls. Write_lines f ls \<notin> set rest)"
      unfolding w' by blast
    have 2: "forked_repos w'
            = filter (\<lambda>l. l \<noteq> u) (forked_repos w)
              @ (if fst (create_new_fork gw u t src w) = Ok True then [u] else [])"
      unfolding w' using sp by (simp add: create_new_fork_files(3))
    then have 3: "filter (\<lambda>l. l \<noteq> u) (forked_repos w') = filter (\<lambda>l. l \<noteq> u) (forked_repos w)"
      by simp
    from 1 2 3 show ?thesis
      by (simp add: w' create_new_fork_files(1,2))
  qed
  have B: "filter (\<lambda>l. l \<notin> set names) (forked_repos v')
          = filter (\<lambda>l. l \<notin> set names) (forked_repos v)
        \<and> invited_users v' = invited_users v
        \<and> accepted_users v' = accepted_users v
        \<and> (\<forall>f ls. Write_lines f ls \<in> set (new_events v v')
              \<longrightarrow> f = Forked \<and> (\<exists>a \<in> set names. a \<notin> set ls))"
    if c: "config = Some cfg"
      and n: "names = map fst (users_to_process (main_account_username cfg) tc)"
      and v': "v' = snd (invoke_auto_create_or_sync_fork gw config tc inputs v)"
  proof -
    let ?us = "users_to_process (main_account_username cfg) tc"
    let ?I = "\<lambda>v'. invited_users v' = invited_users v \<and> accepted_users v' = accepted_users v
       \<and> filter (\<lambda>l. l \<notin> fst ` set ?us) (forked_repos v')
           = filter (\<lambda>l. l \<notin> fst ` set ?us) (forked_repos v)"
    have files: "?I v'"
      unfolding v'
    proof (rule invoke_fork_inv [where I = ?I])
      fix cfg' action assume "config = Some cfg'"
      with c have [simp]: "cfg' = cfg" by simp
      show "?I (snd (fork_loop gw action
                (main_account_username cfg' @ ''/'' @ main_repo_name cfg')
                (main_repo_name cfg') (users_to_process (main_account_username cfg') tc)
                (0, 0) v))"
        using fork_loop_files [of gw action _ _ ?us "(0, 0)" v] by simp
    qed simp_all
    let ?P = "\<lambda>e. \<forall>f ls. e = Write_lines f ls \<longrightarrow> f = Forked \<and> (\<exists>a \<in> set names. a \<notin> set ls)"
    have "all_new ?P v v'"
      unfolding v'
    proof (rule invoke_fork_inv [where I = "all_new ?P v"])
      fix cfg' action assume "config = Some cfg'"
      with c have [simp]: "cfg' = cfg" by simp
      show "all_new ?P v (snd (fork_loop gw action
                (main_account_username cfg' @ ''/'' @ main_repo_name cfg')
                (main_repo_name cfg') (users_to_process (main_account_username cfg') tc)
                (0, 0) v))"
        by (rule fork_loop_new [where Q = "\<lambda>u c. True"]) (force simp: n)+
    qed (auto intro: all_new_print_error)
    from all_new_events [OF this] files show ?thesis by (auto simp: n)
  qed
  have C: "forked_repos (snd (invoke_auto_accept gw jl config tc x)) = forked_repos x"
    by (rule invoke_auto_accept_inv) (simp_all add: accept_loop_files)
  have D: "\<forall>f ls. Write_lines f ls \<notin> set (new_events x (snd (invoke_auto_invite gw config tc x)))"
  proof -
    have "all_new (\<lambda>e. \<forall>f ls. e \<noteq> Write_lines f ls) x (snd (invoke_auto_invite gw config tc x))"
      by (rule invoke_auto_invite_new) simp_all
    from all_new_events [OF this] show ?thesis by blast
  qed
  have E: "\<forall>f ls. Write_lines f ls
       \<notin> set (new_events x (snd (invoke_auto_accept gw jl config tc x)))"
  proof -
    have "all_new (\<lambda>e. \<forall>f ls. e \<noteq> Write_lines f ls) x (snd (invoke_auto_accept gw jl config tc x))"
    proof (rule invoke_auto_accept_inv)
      show "all_new (\<lambda>e. \<forall>f ls. e \<noteq> Write_lines f ls) x
              (print_error Err_config_or_cache_missing x)"
        by (rule all_new_print_error) simp_all
      show "all_new (\<lambda>e. \<forall>f ls. e \<noteq> Write_lines f ls) x
              (snd (accept_loop gw jl tr (accepted_users x) tc (0, 0, 0) x))" for tr
        by (rule accept_loop_new) simp_all
    qed
    from all_new_events [OF this] show ?thesis by blast
  qed
  from A B C D E show ?thesis
    by (simp add: invoke_auto_invite_forked)
qed



subsection \<open>The main account is no target\<close>

lemma c9_invite:
  "all_new (\<lambda>e. \<forall>c t r. e = Call c t r
            \<longrightarrow> (\<exists>u. c = Put_collaborator (main_account_username cfg @ ''/'' @ main_repo_name cfg) u
                      \<and> u \<noteq> main_account_username cfg \<and> u \<in> snd ` set tc \<and> t = main_token cfg))
     w (snd (invoke_auto_invite gw (Some cfg) tc w))"
  by (rule invoke_auto_invite_new) simp_all

lemma c9_loop:
  "all_new (\<lambda>e. \<forall>c t r. e = Call c t r
       \<longrightarrow> (\<exists>u. (t, u) \<in> set tc \<and> u \<noteq> m \<and> call_ok (m @ ''/'' @ rn) rn u c))
     w (snd (fork_loop gw action (m @ ''/'' @ rn) rn (users_to_process m tc) cnt w))"
proof (rule fork_loop_new [where Q = "call_ok (m @ ''/'' @ rn) rn"])
  fix u t c r
  assume "(u, t) \<in> set (users_to_process m tc)" and "call_ok (m @ ''/'' @ rn) rn u c"
  with users_to_process_sound [of u t m tc]
  have "(t, u) \<in> set tc \<and> u \<noteq> m \<and> call_ok (m @ ''/'' @ rn) rn u c" by simp
  then have "\<exists>u. (t, u) \<in> set tc \<and> u \<noteq> m \<and> call_ok (m @ ''/'' @ rn) rn u c" by (rule exI)
  then show "\<forall>c' t' r'. Call c t r = Call c' t' r'
       \<longrightarrow> (\<exists>u. (t', u) \<in> set tc \<and> u \<noteq> m \<and> call_ok (m @ ''/'' @ rn) rn u c')" by simp
next
  fix u t assume "(u, t) \<in> set (users_to_process m tc)"
  then have "u \<noteq> m" by (auto dest: users_to_process_sound)
  then show "call_ok (m @ ''/'' @ rn) rn u (Delete_repo (u @ ''/'' @ rn))"
    by (simp add: call_ok_def)
next
  fix u t b assume "(u, t) \<in> set (users_to_process m tc)"
  then have "u \<noteq> m" by (auto dest: users_to_process_sound)
  then show "call_ok (m @ ''/'' @ rn) rn u (Merge_upstream (u @ ''/'' @ rn) b)"
    by (simp add: call_ok_def)
qed (simp_all add: call_ok_def)


lemma c9_fork:
  "all_new (\<lambda>e. \<forall>c t r. e = Call c t r
       \<longrightarrow> (\<exists>u. (t, u) \<in> set tc \<and> u \<noteq> main_account_username cfg
              \<and> call_ok (main_account_username cfg @ ''/'' @ main_repo_name cfg)
                   (main_repo_name cfg) u c))
     w (snd (invoke_auto_create_or_sync_fork gw (Some cfg) tc inputs w))"
proof (rule invoke_fork_inv)
  fix cfg' action assume "Some cfg = Some cfg'"
  then have eq: "cfg' = cfg" by simp
  show "all_new (\<lambda>e. \<forall>c t r. e = Call c t r
       \<longrightarrow> (\<exists>u. (t, u) \<in> set tc \<and> u \<noteq> main_account_username cfg
              \<and> call_ok (main_account_username cfg @ ''/'' @ main_repo_name cfg)
                   (main_repo_name cfg) u c))
     w (snd (fork_loop gw action (main_account_username cfg' @ ''/'' @ main_repo_name cfg')
              (main_repo_name cfg') (users_to_process (main_account_username cfg') tc) (0, 0) w))"
    unfolding eq by (rule c9_loop)
next
  show "all_new (\<lambda>e. \<forall>c t r. e = Call c t r
       \<longrightarrow> (\<exists>u. (t, u) \<in> set tc \<and> u \<noteq> main_account_username cfg
              \<and> call_ok (main_account_username cfg @ ''/'' @ main_repo_name cfg)
                   (main_repo_name cfg) u c))
     w (print_error Err_config_unset w)"
    by (rule all_new_print_error) simp_all
next
  show "all_new (\<lambda>e. \<forall>c t r. e = Call c t r
       \<longrightarrow> (\<exists>u. (t, u) \<in> set tc \<and> u \<noteq> main_account_username cfg
              \<and> call_ok (main_account_username cfg @ ''/'' @ main_repo_name cfg)
                   (main_repo_name cfg) u c))
     w (print_error Err_token_cache_empty w)"
    by (rule all_new_print_error) simp_all
qed simp

text \<open>
  What the two flows do guarantee is exclusion by exact name. Whatever the token cache
  holds and whatever the operator answers, every gateway call of the invite flow invites
  a username of the cache that differs, as a string, from the configured main username,
  and every gateway call of the fork flow is made with a token whose cache entry is such
  a username \<open>u\<close> and is one of the calls of \<open>call_ok\<close> for \<open>u\<close>. The
  comparison is \<open>u != main_username\<close>, letter case included.
\<close>

theorem main_account_is_never_targeted:
  assumes "m = main_account_username cfg" and "rn = main_repo_name cfg"
    and "src = m @ ''/'' @ rn"
    and "w1 = snd (invoke_auto_invite gw (Some cfg) tc w)"
    and "w2 = snd (invoke_auto_create_or_sync_fork gw (Some cfg) tc inputs w)"
  shows "(\<forall>c t r. Call c t r \<in> set (new_events w w1)
            \<longrightarrow> (\<exists>u. c = Put_collaborator src u \<and> u \<noteq> m
                      \<and> u \<in> snd ` set tc \<and> t = main_token cfg))
       \<and> (\<forall>c t r. Call c t r \<in> set (new_events w w2)
            \<longrightarrow> (\<exists>u. (t, u) \<in> set tc \<and> u \<noteq> m \<and> call_ok src rn u c))
       \<and> (distinct (map fst tc)
            \<longrightarrow> (\<forall>c t r. Call c t r \<in> set (new_events w w2) \<longrightarrow> (t, m) \<notin> set tc))"
proof -
  have inv: "\<exists>u. c = Put_collaborator src u \<and> u \<noteq> m \<and> u \<in> snd ` set tc \<and> t = main_token cfg"
    if "Call c t r \<in> set (new_events w w1)" for c t r
    using all_new_events [OF c9_invite that [unfolded assms(4)]]
    unfolding assms(1-3) by simp
  have frk: "\<exists>u. (t, u) \<in> set tc \<and> u \<noteq> m \<and> call_ok src rn u c"
    if "Call c t r \<in> set (new_events w w2)" for c t r
    using all_new_events [OF c9_fork that [unfolded assms(5)]]
    unfolding assms(1-3) by simp
  have dis: "(t, m) \<notin> set tc"
    if d: "distinct (map fst tc)" and "Call c t r \<in> set (new_events w w2)" for c t r
  proof
    assume "(t, m) \<in> set tc"
    moreover from frk [OF that(2)] obtain u where "(t, u) \<in> set tc" "u \<noteq> m" by blast
    ultimately show False using eq_key_imp_eq_value [OF d, of t u m] by simp
  qed
  from inv frk dis show ?thesis by blast
qed

subsection \<open>Sample runs\<close>

lemmas fixture_defs = gw_ok_def gw_forks_def tc1_def tc0_def cfg0_def w0_def resp_ok_def
  resp_out_def resp_fail_def

lemmas run_defs = run_gh_api_def sleep_def print_error_def write_log_def append_to_file_def
  write_text_def set_file_lines_def read_file_lines_def disable_workflow_def
  check_if_correct_fork_def get_default_branch_def delete_repository_def
  sync_fork_with_upstream_def remove_stale_entry_def create_and_count_def process_user_def
  get_error_def lower_def lower_char_def strip_def strip_quotes_def strip_chars_def
  is_space_def Let_def split_def

theorem failed_deletion_prevents_creation_witness:
  "process_user gw_forks ''2'' ''main/repo'' ''repo'' (''alice'', ''ta'') (0, 0) w0
     = (Ok (0, 1),
        snd (delete_repository gw_forks ''alice/repo'' ''ta''
          (snd (run_gh_api gw_forks (Get_repo ''alice/repo'') ''ta''
            (snd (check_if_correct_fork gw_forks ''alice/repo'' ''ta'' ''main/repo'' w0))))))
   \<and> process_user gw_ok ''2'' ''main/repo'' ''repo'' (''alice'', ''ta'') (0, 0) w0
     = create_and_count gw_ok ''alice'' ''ta'' ''main/repo'' (0, 0)
        (snd (delete_repository gw_ok ''alice/repo'' ''ta''
          (snd (run_gh_api gw_ok (Get_repo ''alice/repo'') ''ta''
            (snd (check_if_correct_fork gw_ok ''alice/repo'' ''ta'' ''main/repo'' w0))))))"
proof -
  have e1: "success (gw_forks (snd (check_if_correct_fork gw_forks (''alice'' @ ''/'' @ ''repo'')
      ''ta'' ''main/repo'' w0)) (Get_repo (''alice'' @ ''/'' @ ''repo'')) ''ta'')"
    by (simp add: gw_forks_def resp_ok_def)
  have e2: "success (gw_ok (snd (check_if_correct_fork gw_ok (''alice'' @ ''/'' @ ''repo'')
      ''ta'' ''main/repo'' w0)) (Get_repo (''alice'' @ ''/'' @ ''repo'')) ''ta'')"
    by (simp add: gw_ok_def resp_ok_def)
  from failed_deletion_prevents_creation [where gw = gw_forks and u = "''alice''"
      and rn = "''repo''" and t = "''ta''" and src = "''main/repo''" and w = w0
      and cnt = "(0, 0)", OF refl refl e1 refl refl refl refl]
  have 1: "process_user gw_forks ''2'' ''main/repo'' ''repo'' (''alice'', ''ta'') (0, 0) w0
     = (Ok (0, 1),
        snd (delete_repository gw_forks ''alice/repo'' ''ta''
          (snd (run_gh_api gw_forks (Get_repo ''alice/repo'') ''ta''
            (snd (check_if_correct_fork gw_forks ''alice/repo'' ''ta'' ''main/repo'' w0))))))"
    by (simp add: gw_forks_def resp_fail_def)
  from failed_deletion_prevents_creation [where gw = gw_ok and u = "''alice''"
      and rn = "''repo''" and t = "''ta''" and src = "''main/repo''" and w = w0
      and cnt = "(0, 0)", OF refl refl e2 refl refl refl refl]
  have 2: "process_user gw_ok ''2'' ''main/repo'' ''repo'' (''alice'', ''ta'') (0, 0) w0
     = create_and_count gw_ok ''alice'' ''ta'' ''main/repo'' (0, 0)
        (snd (delete_repository gw_ok ''alice/repo'' ''ta''
          (snd (run_gh_api gw_ok (Get_repo ''alice/repo'') ''ta''
            (snd (check_if_correct_fork gw_ok ''alice/repo'' ''ta'' ''main/repo'' w0))))))"
    by (simp add: gw_ok_def resp_ok_def)
  from 1 2 show ?thesis by (rule conjI)
qed

theorem sync_and_keep_paths_witness:
  "fst (check_if_correct_fork gw_forks ''alice/repo'' ''ta'' ''main/repo'' w0)
   \<and> snd (process_user gw_forks ''1'' ''main/repo'' ''repo'' (''alice'', ''ta'') (0, 0) w0)
       = sleep 2 (snd (sync_fork_with_upstream gw_forks ''alice/repo'' ''ta''
           (snd (check_if_correct_fork gw_forks ''alice/repo'' ''ta'' ''main/repo'' w0))))
   \<and> \<not> fst (check_if_correct_fork gw_forks ''bob/repo'' ''tb'' ''main/repo'' w0)
   \<and> process_user gw_forks ''1'' ''main/repo'' ''repo'' (''bob'', ''tb'') (0, 0) w0
       = create_and_count gw_forks ''bob'' ''tb'' ''main/repo'' (0, 0)
           (snd (check_if_correct_fork gw_forks ''bob/repo'' ''tb'' ''main/repo'' w0))"
proof -
  have va: "success (gw_forks w0 (Get_parent (''alice'' @ ''/'' @ ''repo'')) ''ta'')
      \<and> lower (strip_quotes (strip (output_text
            (gw_forks w0 (Get_parent (''alice'' @ ''/'' @ ''repo'')) ''ta''))))
          = lower (''main'' @ ''/'' @ ''repo'')"
    by (simp add: gw_forks_def resp_out_def lower_def lower_char_def strip_def strip_quotes_def
        strip_chars_def is_space_def)
  have vb: "\<not> (success (gw_forks w0 (Get_parent (''bob'' @ ''/'' @ ''repo'')) ''tb'')
      \<and> lower (strip_quotes (strip (output_text
            (gw_forks w0 (Get_parent (''bob'' @ ''/'' @ ''repo'')) ''tb''))))
          = lower (''main'' @ ''/'' @ ''repo''))"
    by (simp add: gw_forks_def resp_fail_def)
  from sync_and_keep_paths [where gw = gw_forks and u = "''alice''" and rn = "''repo''"
      and t = "''ta''" and m = "''main''" and w = w0 and cnt = "(0, 0)",
      OF refl refl refl refl refl refl] va
  have 1: "fst (check_if_correct_fork gw_forks ''alice/repo'' ''ta'' ''main/repo'' w0)
   \<and> snd (process_user gw_forks ''1'' ''main/repo'' ''repo'' (''alice'', ''ta'') (0, 0) w0)
       = sleep 2 (snd (sync_fork_with_upstream gw_forks ''alice/repo'' ''ta''
           (snd (check_if_correct_fork gw_forks ''alice/repo'' ''ta'' ''main/repo'' w0))))"
    by (simp del: check_if_correct_fork_fields(1))
  from sync_and_keep_paths [where gw = gw_forks and u = "''bob''" and rn = "''repo''"
      and t = "''tb''" and m = "''main''" and w = w0 and cnt = "(0, 0)",
      OF refl refl refl refl refl refl] vb
  have 2: "\<not> fst (check_if_correct_fork gw_forks ''bob/repo'' ''tb'' ''main/repo'' w0)
   \<and> process_user gw_forks ''1'' ''main/repo'' ''repo'' (''bob'', ''tb'') (0, 0) w0
       = create_and_count gw_forks ''bob'' ''tb'' ''main/repo'' (0, 0)
           (snd (check_if_correct_fork gw_forks ''bob/repo'' ''tb'' ''main/repo'' w0))"
    by (simp del: check_if_correct_fork_fields(1))
  from 1 2 show ?thesis by blast
qed


theorem stale_entry_repair_is_local_witness:
  "forked_repos (snd (create_new_fork gw_ok ''bob'' ''tb'' ''main/repo''
       (w0\<lparr>forked_repos := [''alice'', ''bob'', ''carol'']\<rparr>)))
     = [''alice'', ''carol'', ''bob'']
   \<and> filter (\<lambda>l. l \<notin> set (map fst (users_to_process ''main'' tc1)))
        (forked_repos (snd (invoke_auto_create_or_sync_fork gw_ok (Some cfg0) tc1 [''1'']
           (w0\<lparr>forked_repos := [''zed'', ''alice'']\<rparr>))))
     = [''zed'']"
proof -
  have sp: "split_on CHR ''/'' ''main/repo'' = ''main'' # ''repo'' # []" by simp
  have ok: "fst (create_new_fork gw_ok ''bob'' ''tb'' ''main/repo''
       (w0\<lparr>forked_repos := [''alice'', ''bob'', ''carol'']\<rparr>)) = Ok True"
    by (simp add: create_new_fork_unfold [OF sp] Let_def poll_fork_ready gw_ok_def resp_ok_def)
  have names: "map fst (users_to_process ''main'' tc1) = [''alice'']"
    by (simp add: users_to_process_def tc1_def)
  from stale_entry_repair_is_local [where src = "''main/repo''" and owner = "''main''"
      and name = "''repo''" and others = "[]" and gw = gw_ok and u = "''bob''" and t = "''tb''"
      and w = "w0\<lparr>forked_repos := [''alice'', ''bob'', ''carol'']\<rparr>"
      and w' = "snd (create_new_fork gw_ok ''bob'' ''tb'' ''main/repo''
                 (w0\<lparr>forked_repos := [''alice'', ''bob'', ''carol'']\<rparr>))"
      and config = "Some cfg0" and cfg = cfg0 and tc = tc1 and inputs = "[''1'']"
      and names = "map fst (users_to_process (main_account_username cfg0) tc1)"
      and v = "w0\<lparr>forked_repos := [''zed'', ''alice'']\<rparr>"
      and v' = "snd (invoke_auto_create_or_sync_fork gw_ok (Some cfg0) tc1 [''1'']
                 (w0\<lparr>forked_repos := [''zed'', ''alice'']\<rparr>))"]
    sp ok
  have "forked_repos (snd (create_new_fork gw_ok ''bob'' ''tb'' ''main/repo''
       (w0\<lparr>forked_repos := [''alice'', ''bob'', ''carol'']\<rparr>)))
     = filter (\<lambda>l. l \<noteq> ''bob'') [''alice'', ''bob'', ''carol''] @ [''bob'']
   \<and> filter (\<lambda>l. l \<notin> set (map fst (users_to_process (main_account_username cfg0) tc1)))
        (forked_repos (snd (invoke_auto_create_or_sync_fork gw_ok (Some cfg0) tc1 [''1'']
           (w0\<lparr>forked_repos := [''zed'', ''alice'']\<rparr>))))
     = filter (\<lambda>l. l \<notin> set (map fst (users_to_process (main_account_username cfg0) tc1)))
         [''zed'', ''alice'']"
    by (simp add: w0_def)
  then show ?thesis by (simp add: names cfg0_def)
qed

theorem main_account_is_never_targeted_witness:
  "Call (Put_collaborator ''main/repo'' ''alice'') ''tm'' resp_ok
     \<in> set (new_events w0 (snd (invoke_auto_invite gw_ok (Some cfg0) tc1 w0)))
   \<and> ''alice'' \<noteq> ''main''
   \<and> Call (Get_parent ''alice/repo'') ''ta'' resp_ok
     \<in> set (new_events w0 (snd (invoke_auto_create_or_sync_fork gw_ok (Some cfg0) tc1 [''2'', ''Y''] w0)))
   \<and> (''ta'', ''main'') \<notin> set tc1"
proof -
  have i: "Call (Put_collaborator ''main/repo'' ''alice'') ''tm'' resp_ok
     \<in> set (new_events w0 (snd (invoke_auto_invite gw_ok (Some cfg0) tc1 w0)))"
    by (simp add: invoke_auto_invite_def users_to_invite_def invite_one_def new_events_def
        fixture_defs run_defs)
  have f: "Call (Get_parent ''alice/repo'') ''ta'' resp_ok
     \<in> set (new_events w0 (snd (invoke_auto_create_or_sync_fork gw_ok (Some cfg0) tc1 [''2'', ''Y''] w0)))"
    by (simp add: invoke_auto_create_or_sync_fork_def run_fork_loop_def users_to_process_def
        new_events_def fixture_defs run_defs create_new_fork_def poll_fork_ready)
  have d: "distinct (map fst tc1)" by (simp add: tc1_def)
  from main_account_is_never_targeted [where cfg = cfg0 and gw = gw_ok and tc = tc1
      and w = w0 and inputs = "[''2'', ''Y'']", OF refl refl refl refl refl] i f d
  have "(\<exists>u. Put_collaborator ''main/repo'' ''alice''
               = Put_collaborator (main_account_username cfg0 @ ''/'' @ main_repo_name cfg0) u
             \<and> u \<noteq> main_account_username cfg0)
      \<and> (''ta'', main_account_username cfg0) \<notin> set tc1"
    by blast
  with i f show ?thesis by (simp add: cfg0_def)
qed


subsection \<open>The main account under another spelling\<close>

text \<open>
  Claim C9 does not hold of the code. Account names are compared without regard to
  letter case where the module reads them back from the remote side (the target
  repository of an invitation, the parent of a fork), but the exclusion of the main
  account is the exact comparison \<open>u != main_username\<close>. With the main account
  configured as \<open>main\<close> and cached as \<open>Main\<close>, the account is a candidate of both
  flows: the invite flow invites \<open>Main\<close> to \<open>main/repo\<close>; in mode \<open>2\<close>, confirmed,
  the fork flow deletes \<open>Main/repo\<close>, which is the main repository under the module's
  own comparison of names, and asks for a fork of it; in mode \<open>1\<close>, with a parentage
  probe that names \<open>main/repo\<close>, it merges into \<open>Main/repo\<close>.
\<close>

theorem main_account_targeted_under_other_case:
  "users_to_process (main_account_username cfg0) tc_main = [(''Main'', ''tM'')]
   \<and> users_to_invite cfg0 tc_main w0 = [''Main'']
   \<and> lower ''Main'' = lower (main_account_username cfg0)
   \<and> lower ''Main/repo'' = lower (main_account_username cfg0 @ ''/'' @ main_repo_name cfg0)
   \<and> Call (Put_collaborator ''main/repo'' ''Main'') ''tm'' resp_ok
        \<in> set (new_events w0 (snd (invoke_auto_invite gw_ok (Some cfg0) tc_main w0)))
   \<and> Call (Delete_repo ''Main/repo'') ''tM'' resp_ok
        \<in> set (new_events w0
             (snd (invoke_auto_create_or_sync_fork gw_ok (Some cfg0) tc_main [''2'', ''y''] w0)))
   \<and> Call (Create_fork ''main/repo'') ''tM'' resp_ok
        \<in> set (new_events w0
             (snd (invoke_auto_create_or_sync_fork gw_ok (Some cfg0) tc_main [''2'', ''y''] w0)))
   \<and> Call (Merge_upstream ''Main/repo'' ''main'') ''tM'' resp_ok
        \<in> set (new_events w0
             (snd (invoke_auto_create_or_sync_fork
                    (\<lambda>w c t. case c of Get_parent p \<Rightarrow> resp_out ''main/repo'' | _ \<Rightarrow> resp_ok)
                    (Some cfg0) tc_main [''1''] w0)))"
proof -
  have 1: "users_to_process (main_account_username cfg0) tc_main = [(''Main'', ''tM'')]"
    by (simp add: users_to_process_def tc_main_def cfg0_def)
  have 2: "users_to_invite cfg0 tc_main w0 = [''Main'']"
    by (simp add: users_to_invite_def tc_main_def cfg0_def w0_def read_file_lines_def)
  have 3: "lower ''Main'' = lower (main_account_username cfg0)"
    by (simp add: cfg0_def lower_def lower_char_def)
  have 4: "lower ''Main/repo'' = lower (main_account_username cfg0 @ ''/'' @ main_repo_name cfg0)"
    by (simp add: cfg0_def lower_def lower_char_def)
  have 5: "Call (Put_collaborator ''main/repo'' ''Main'') ''tm'' resp_ok
        \<in> set (new_events w0 (snd (invoke_auto_invite gw_ok (Some cfg0) tc_main w0)))"
    by (simp add: invoke_auto_invite_def users_to_invite_def invite_one_def new_events_def
        tc_main_def fixture_defs run_defs)
  have 6: "new_events w0
             (snd (invoke_auto_create_or_sync_fork gw_ok (Some cfg0) tc_main [''2'', ''y''] w0))
        = [Call (Get_parent ''Main/repo'') ''tM'' resp_ok,
           Call (Get_repo ''Main/repo'') ''tM'' resp_ok,
           Call (Delete_repo ''Main/repo'') ''tM'' resp_ok, Sleep 5,
           Call (Create_fork ''main/repo'') ''tM'' resp_ok,
           Call (Get_repo ''Main/repo'') ''tM'' resp_ok,
           Call (Disable_workflow ''Main/repo'' ''datagram-runner.yml'') ''tM'' resp_ok,
           Append_line Forked ''Main'', Sleep 2]"
    by (simp add: invoke_auto_create_or_sync_fork_def run_fork_loop_def users_to_process_def
        new_events_def tc_main_def fixture_defs run_defs create_new_fork_def poll_fork_ready)
  have 7: "new_events w0
             (snd (invoke_auto_create_or_sync_fork
                    (\<lambda>w c t. case c of Get_parent p \<Rightarrow> resp_out ''main/repo'' | _ \<Rightarrow> resp_ok)
                    (Some cfg0) tc_main [''1''] w0))
        = [Call (Get_parent ''Main/repo'') ''tM'' (resp_out ''main/repo''),
           Call (Get_default_branch ''Main/repo'') ''tM'' resp_ok,
           Call (Disable_workflow ''Main/repo'' ''datagram-runner.yml'') ''tM'' resp_ok,
           Call (Merge_upstream ''Main/repo'' ''main'') ''tM'' resp_ok, Sleep 2]"
    by (simp add: invoke_auto_create_or_sync_fork_def run_fork_loop_def users_to_process_def
        new_events_def tc_main_def fixture_defs run_defs)
  from 1 2 3 4 5 show ?thesis by (simp add: 6 7)
qed


end
